theory Spec2Isabelle
  imports Main
begin

section \<open>The structural math editor: expression tree and cursor\<close>

text \<open>
  A shallow embedding of \<^verbatim>\<open>math.ts\<close>, \<^verbatim>\<open>mathelements.ts\<close> and \<^verbatim>\<open>cursor.ts\<close>.
  JavaScript numbers that index arrays are modelled as \<open>int\<close> (the code only ever
  produces integers), arrays as lists, \<^verbatim>\<open>undefined\<close>/\<^verbatim>\<open>null\<close> as \<open>None\<close>, and a thrown
  exception as \<open>Inl\<close> of an \<open>error\<close>, paired with the state the cursor has at the throw.
\<close>

subsection \<open>JavaScript arrays and strings\<close>

text \<open>\<^verbatim>\<open>xs[i]\<close>: \<^verbatim>\<open>undefined\<close> outside the array.\<close>

definition nth_js :: "'a list \<Rightarrow> int \<Rightarrow> 'a option" where
  "nth_js xs i = (if 0 \<le> i \<and> i < int (length xs) then Some (xs ! nat i) else None)"

text \<open>
  \<^verbatim>\<open>Array.prototype.splice(start, deleteCount, ...items)\<close> on integer arguments: a negative
  \<open>start\<close> counts from the end, a \<open>start\<close> beyond the end is the end.
\<close>

definition spliceStart :: "int \<Rightarrow> nat \<Rightarrow> nat" where
  "spliceStart start len =
     (if start < 0 then nat (max (int len + start) 0) else min (nat start) len)"

definition array_splice :: "int \<Rightarrow> nat \<Rightarrow> 'a list \<Rightarrow> 'a list \<Rightarrow> 'a list" where
  "array_splice start deleteCount items xs =
     (let k = spliceStart start (length xs);
          d = min deleteCount (length xs - k)
      in take k xs @ items @ drop (k + d) xs)"

text \<open>\<^verbatim>\<open>Array.prototype.join(sep)\<close> on an array of strings.\<close>

fun join :: "string \<Rightarrow> string list \<Rightarrow> string" where
  "join sep [] = []"
| "join sep [x] = x"
| "join sep (x # y # ys) = x @ sep @ join sep (y # ys)"

text \<open>\<^verbatim>\<open>String.prototype.includes(key)\<close>: \<open>key\<close> occurs as a substring.\<close>

fun string_includes :: "string \<Rightarrow> string \<Rightarrow> bool" where
  "string_includes [] key = (key = [])"
| "string_includes (c # s) key = (take (length key) (c # s) = key \<or> string_includes s key)"

definition backslash :: string where
  "backslash = [CHR 0x5C]"

subsection \<open>Errors\<close>

datatype error =
    OutOfBounds        \<comment> \<open>\<^verbatim>\<open>Attempted to remove node out of bounds\<close>\<close>
  | EmptyStackTop      \<comment> \<open>\<^verbatim>\<open>Cannot get top level cursor path link; stack is empty\<close>\<close>
  | EmptyStackPop      \<comment> \<open>\<^verbatim>\<open>Cannot pop cursor path link off stack; stack is empty\<close>\<close>
  | NoEnclosingNode    \<comment> \<open>\<^verbatim>\<open>No enclosing node to remove\<close>\<close>
  | CursorNotDisplayed \<comment> \<open>\<^verbatim>\<open>Cursor is not being displayed!\<close>\<close>
  | TypeError          \<comment> \<open>a property read on \<^verbatim>\<open>undefined\<close> or \<^verbatim>\<open>null\<close>\<close>

subsection \<open>Expressions and nodes (math.ts, mathelements.ts)\<close>

text \<open>The subclasses of \<^verbatim>\<open>MathNode\<close>, with the fields each one adds.\<close>

datatype NodeKind =
    MathCharacter string
  | Fraction
  | IntegralType string
  | EvaluatedFrom
  | Sum
  | Product
  | BigUnion
  | BigIntersection
  | SubscriptableFunction string
  | CommandEnclosable string
  | Limit
  | Bracket string string
  | Superscript
  | Subscript

datatype MathNode = MathNode (node_id: string) (kind: NodeKind) (children: "MathExpression list")
  and MathExpression = MathExpression (getNodes: "MathNode list")

text \<open>
  The constructors: a \<^verbatim>\<open>MathCharacter\<close> has no children, a \<^verbatim>\<open>SingleChildMathNode\<close>, a
  \<^verbatim>\<open>Superscript\<close> and a \<^verbatim>\<open>Subscript\<close> have one empty child expression, a
  \<^verbatim>\<open>DoubleChildMathNode\<close> has two. The identifier is the result of \<^verbatim>\<open>_provisionNewID()\<close>,
  which is random and therefore an argument here.
\<close>

fun initialChildren :: "NodeKind \<Rightarrow> MathExpression list" where
  "initialChildren (MathCharacter ch) = []"
| "initialChildren Fraction = [MathExpression [], MathExpression []]"
| "initialChildren (IntegralType cmd) = [MathExpression [], MathExpression []]"
| "initialChildren EvaluatedFrom = [MathExpression [], MathExpression []]"
| "initialChildren Sum = [MathExpression [], MathExpression []]"
| "initialChildren Product = [MathExpression [], MathExpression []]"
| "initialChildren BigUnion = [MathExpression [], MathExpression []]"
| "initialChildren BigIntersection = [MathExpression [], MathExpression []]"
| "initialChildren (SubscriptableFunction f) = [MathExpression []]"
| "initialChildren (CommandEnclosable cmd) = [MathExpression []]"
| "initialChildren Limit = [MathExpression []]"
| "initialChildren (Bracket l r) = [MathExpression []]"
| "initialChildren Superscript = [MathExpression []]"
| "initialChildren Subscript = [MathExpression []]"

definition newNode :: "string \<Rightarrow> NodeKind \<Rightarrow> MathNode" where
  "newNode fresh k = MathNode fresh k (initialChildren k)"

text \<open>\<^verbatim>\<open>MathExpression.insertNode\<close>: \<^verbatim>\<open>this._nodes.splice(before, 0, node)\<close>.\<close>

definition insertNode :: "int \<Rightarrow> MathNode \<Rightarrow> MathExpression \<Rightarrow> MathExpression" where
  "insertNode before node e = MathExpression (array_splice before 0 [node] (getNodes e))"

text \<open>\<^verbatim>\<open>MathExpression.removeNthNode\<close>: throws outside the array, else splices one node out.\<close>

definition removeNthNode :: "int \<Rightarrow> MathExpression \<Rightarrow> error + MathExpression" where
  "removeNthNode index e =
     (if index < 0 \<or> index \<ge> int (length (getNodes e)) then Inl OutOfBounds
      else Inr (MathExpression (array_splice index 1 [] (getNodes e))))"

subsection \<open>Cursor location (cursor.ts)\<close>

record CursorPathLink =
  nodeIndex :: int
  childIndex :: int
  link_i :: int  \<comment> \<open>the field \<^verbatim>\<open>_i\<close>: where in the path the link is\<close>

record LocationInfo =
  enclosingExpression :: "MathExpression option"
  enclosingNode :: "MathNode option"

record CursorLocation =
  loc_path :: "CursorPathLink list"  \<comment> \<open>\<^verbatim>\<open>_path\<close>\<close>
  loc_root :: MathExpression         \<comment> \<open>\<^verbatim>\<open>_root\<close>\<close>

definition newCursorLocation :: "MathExpression \<Rightarrow> CursorLocation" where
  "newCursorLocation r = \<lparr>loc_path = [], loc_root = r\<rparr>"

definition moveInto :: "int \<Rightarrow> int \<Rightarrow> CursorLocation \<Rightarrow> CursorLocation" where
  "moveInto ni ci loc =
     loc\<lparr>loc_path := loc_path loc @
       [\<lparr>nodeIndex = ni, childIndex = ci, link_i = int (length (loc_path loc))\<rparr>]\<rparr>"

definition getParent :: "CursorLocation \<Rightarrow> CursorPathLink \<Rightarrow> CursorPathLink option" where
  "getParent loc link =
     (if link_i link = 0 then None else nth_js (loc_path loc) (link_i link - 1))"

text \<open>
  The loop of \<^verbatim>\<open>resolveLinkInfo\<close>, with its variables as arguments. Reading a property of
  \<^verbatim>\<open>undefined\<close> (an expression, a link or a node that is not there) is a \<open>TypeError\<close>.
\<close>

function resolveLoop ::
  "CursorLocation \<Rightarrow> CursorPathLink \<Rightarrow> int \<Rightarrow> MathExpression option \<Rightarrow> MathNode option
     \<Rightarrow> error + LocationInfo" where
  "resolveLoop loc link i currentExpression currentNode =
     (if i \<le> link_i link then
        (case currentExpression of
           None \<Rightarrow> Inl TypeError
         | Some ce \<Rightarrow>
            (case nth_js (loc_path loc) i of
               None \<Rightarrow> Inl TypeError
             | Some nextLink \<Rightarrow>
                (case nth_js (getNodes ce) (nodeIndex nextLink) of
                   None \<Rightarrow> Inl TypeError
                 | Some cn \<Rightarrow>
                     resolveLoop loc link (i + 1)
                       (nth_js (children cn) (childIndex nextLink)) (Some cn))))
      else Inr \<lparr>enclosingExpression = currentExpression, enclosingNode = currentNode\<rparr>)"
  by pat_completeness auto
termination
  by (relation "measure (\<lambda>(loc, link, i, ce, cn). nat (link_i link + 1 - i))") auto

definition resolveLinkInfo :: "CursorLocation \<Rightarrow> CursorPathLink \<Rightarrow> error + LocationInfo" where
  "resolveLinkInfo loc link = resolveLoop loc link 0 (Some (loc_root loc)) None"

definition atRoot :: "CursorLocation \<Rightarrow> bool" where
  "atRoot loc = (length (loc_path loc) = 0)"

text \<open>
  \<^verbatim>\<open>CursorLocation.getEnclosingExpression\<close>. The result is \<open>Inr None\<close> when the last link
  names a child that the node does not have: the code then returns \<^verbatim>\<open>undefined\<close>.
\<close>

definition getEnclosingExpression :: "CursorLocation \<Rightarrow> error + MathExpression option" where
  "getEnclosingExpression loc =
     (if \<not> atRoot loc then
        (case resolveLinkInfo loc (last (loc_path loc)) of
           Inl err \<Rightarrow> Inl err
         | Inr info \<Rightarrow> Inr (enclosingExpression info))
      else Inr (Some (loc_root loc)))"

definition getTopLevelLink :: "CursorLocation \<Rightarrow> error + CursorPathLink" where
  "getTopLevelLink loc =
     (if \<not> atRoot loc then Inr (last (loc_path loc)) else Inl EmptyStackTop)"

definition pop :: "CursorLocation \<Rightarrow> error + (CursorPathLink \<times> CursorLocation)" where
  "pop loc =
     (if atRoot loc then Inl EmptyStackPop
      else Inr (last (loc_path loc), loc\<lparr>loc_path := butlast (loc_path loc)\<rparr>))"

text \<open>
  The expression that \<^verbatim>\<open>getEnclosingExpression\<close> returns is an object inside the tree, and
  the cursor mutates it in place. In the tree of values it is the expression at the end of
  the links that \<^verbatim>\<open>resolveLinkInfo\<close> walked (the links \<open>0 .. _i\<close> of the path), and an
  in-place mutation writes the new value back there. Every \<^verbatim>\<open>MathNode\<close> the editor inserts
  is a newly constructed object, so no expression occurs twice in the tree (the data
  model's no-aliasing invariant) and an expression object is identified by these links.
  A node object that is inserted although it is in the tree already is outside what a tree
  of values can describe; the section on shared objects below keeps the objects in a store
  and treats that case.
\<close>

definition enclosingLinks :: "CursorLocation \<Rightarrow> CursorPathLink list" where
  "enclosingLinks loc =
     (if \<not> atRoot loc then take (nat (link_i (last (loc_path loc)) + 1)) (loc_path loc)
      else [])"

primrec replaceAt :: "CursorPathLink list \<Rightarrow> MathExpression \<Rightarrow> MathExpression \<Rightarrow> MathExpression" where
  "replaceAt [] new e = new"
| "replaceAt (l # ls) new e =
     (case nth_js (getNodes e) (nodeIndex l) of
        None \<Rightarrow> e
      | Some n \<Rightarrow>
         (case nth_js (children n) (childIndex l) of
            None \<Rightarrow> e
          | Some ch \<Rightarrow>
              MathExpression ((getNodes e)[nat (nodeIndex l) :=
                MathNode (node_id n) (kind n)
                  ((children n)[nat (childIndex l) := replaceAt ls new ch])])))"

subsection \<open>The cursor (cursor.ts)\<close>

datatype direction = Left | Right

text \<open>
  An observer callback is a function of the host; it is modelled by a name. The field
  \<open>invoked\<close> records every call of a callback, in order, each with the state the cursor is
  in at the moment of the call, which is what the callback finds when it reads the cursor:
  an \<open>Observation\<close> has every field of the cursor but the record of the calls itself.
\<close>

type_synonym callback = nat

record Observation =
  seenLocation :: CursorLocation
  seenCursorIndex :: int
  seenFocused :: bool
  seenBlinkState :: bool
  seenLastBlinkInterrupt :: int
  seenSearchMenuOpen :: bool
  seenUpdateCallbacks :: "callback list"
  seenFocusCallbacks :: "callback list"

record Cursor =
  location :: CursorLocation
  cursorIndex :: int
  onUpdateCallbacks :: "callback list"
  onRequestFocusCallbacks :: "callback list"
  blinkState :: bool
  lastBlinkInterrupt :: int
  focused :: bool
  searchMenuOpen :: bool
  invoked :: "(callback \<times> Observation) list"

text \<open>The field \<^verbatim>\<open>Cursor.root\<close> is the same object as \<^verbatim>\<open>_location._root\<close>.\<close>

definition root :: "Cursor \<Rightarrow> MathExpression" where
  "root c = loc_root (location c)"

definition path :: "Cursor \<Rightarrow> CursorPathLink list" where
  "path c = loc_path (location c)"

definition newCursor :: "MathExpression \<Rightarrow> Cursor" where
  "newCursor r =
     \<lparr>location = newCursorLocation r, cursorIndex = 0, onUpdateCallbacks = [],
      onRequestFocusCallbacks = [], blinkState = True, lastBlinkInterrupt = 0,
      focused = False, searchMenuOpen = False, invoked = []\<rparr>"

definition observe :: "Cursor \<Rightarrow> Observation" where
  "observe c =
     \<lparr>seenLocation = location c, seenCursorIndex = cursorIndex c, seenFocused = focused c,
      seenBlinkState = blinkState c, seenLastBlinkInterrupt = lastBlinkInterrupt c,
      seenSearchMenuOpen = searchMenuOpen c, seenUpdateCallbacks = onUpdateCallbacks c,
      seenFocusCallbacks = onRequestFocusCallbacks c\<rparr>"

text \<open>\<^verbatim>\<open>for (let cb of callbacks) cb()\<close>: every callback is called, in order, on the cursor as it is.\<close>

definition invokeAll :: "callback list \<Rightarrow> Cursor \<Rightarrow> Cursor" where
  "invokeAll cbs c = c\<lparr>invoked := invoked c @ map (\<lambda>cb. (cb, observe c)) cbs\<rparr>"

definition notifyUpdates :: "Cursor \<Rightarrow> Cursor" where
  "notifyUpdates c = invokeAll (onUpdateCallbacks c) c"

definition requestFocus :: "Cursor \<Rightarrow> Cursor" where
  "requestFocus c = invokeAll (onRequestFocusCallbacks c) c"

definition onUpdate :: "callback \<Rightarrow> Cursor \<Rightarrow> Cursor" where
  "onUpdate cb c = c\<lparr>onUpdateCallbacks := onUpdateCallbacks c @ [cb]\<rparr>"

definition onFocusRequested :: "callback \<Rightarrow> Cursor \<Rightarrow> Cursor" where
  "onFocusRequested cb c = c\<lparr>onRequestFocusCallbacks := onRequestFocusCallbacks c @ [cb]\<rparr>"

text \<open>\<^verbatim>\<open>focus\<close>, \<^verbatim>\<open>blur\<close> and the timer callback; \<open>now\<close> is \<^verbatim>\<open>Date.now()\<close>.\<close>

definition focus :: "int \<Rightarrow> Cursor \<Rightarrow> Cursor" where
  "focus now c = notifyUpdates (c\<lparr>focused := True, blinkState := True, lastBlinkInterrupt := now\<rparr>)"

definition blur :: "Cursor \<Rightarrow> Cursor" where
  "blur c = notifyUpdates (c\<lparr>focused := False\<rparr>)"

definition blinkTick :: "int \<Rightarrow> Cursor \<Rightarrow> Cursor" where
  "blinkTick now c =
     (if now - lastBlinkInterrupt c < 500 then c
      else notifyUpdates (c\<lparr>blinkState := \<not> blinkState c\<rparr>))"

definition CURSOR_ID :: string where
  "CURSOR_ID = ''__cursor''"

definition renderAsLatex :: "Cursor \<Rightarrow> string" where
  "renderAsLatex c =
     (if \<not> focused c then []
      else backslash @ ''!'' @ backslash @ ''htmlId{'' @ CURSOR_ID @ ''}{'' @ backslash @
           ''textcolor{'' @ (if blinkState c then ''black'' else ''white'') @ ''}{|}}'')"

text \<open>
  An operation returns its value, or the exception it throws, together with the cursor as
  the operation leaves it: what was mutated before a throw stays mutated.
\<close>

type_synonym 'a outcome = "(error + 'a) \<times> Cursor"

definition andThen :: "'a outcome \<Rightarrow> ('a \<Rightarrow> Cursor \<Rightarrow> 'b outcome) \<Rightarrow> 'b outcome" where
  "andThen r f = (case r of (Inl err, c) \<Rightarrow> (Inl err, c) | (Inr v, c) \<Rightarrow> f v c)"

text \<open>Writing the mutated enclosing expression back into the tree.\<close>

definition storeEnclosing :: "MathExpression \<Rightarrow> Cursor \<Rightarrow> Cursor" where
  "storeEnclosing e c =
     c\<lparr>location := (location c)\<lparr>loc_root :=
          replaceAt (enclosingLinks (location c)) e (loc_root (location c))\<rparr>\<rparr>"

definition enterNode :: "int \<Rightarrow> int \<Rightarrow> direction \<Rightarrow> Cursor \<Rightarrow> unit outcome" where
  "enterNode ni ci dir c =
     (let c1 = c\<lparr>location := moveInto ni ci (location c)\<rparr> in
      if dir = Right then (Inr (), notifyUpdates (c1\<lparr>cursorIndex := 0\<rparr>))
      else
        (case getEnclosingExpression (location c1) of
           Inl err \<Rightarrow> (Inl err, c1)
         | Inr None \<Rightarrow> (Inl TypeError, c1)
         | Inr (Some e) \<Rightarrow>
             (Inr (), notifyUpdates (c1\<lparr>cursorIndex := int (length (getNodes e))\<rparr>))))"

definition leaveNode :: "direction \<Rightarrow> Cursor \<Rightarrow> CursorPathLink outcome" where
  "leaveNode dir c =
     (case pop (location c) of
        Inl err \<Rightarrow> (Inl err, c)
      | Inr (link, loc') \<Rightarrow>
          (Inr link,
           notifyUpdates (c\<lparr>location := loc',
             cursorIndex := (if dir = Left then nodeIndex link else nodeIndex link + 1)\<rparr>)))"

definition getCursorIndex :: "Cursor \<Rightarrow> int" where
  "getCursorIndex c = cursorIndex c"

text \<open>
  \<^verbatim>\<open>insertNodeAtCursor(node)\<close> in the tree of values: the argument is the content of the node,
  and that content is put at the cursor. This is the insertion of a node object that is
  not in the tree yet, as the newly constructed nodes are that the editor passes.
\<close>

definition insertNodeAtCursor :: "MathNode \<Rightarrow> Cursor \<Rightarrow> int outcome" where
  "insertNodeAtCursor node c =
     (case getEnclosingExpression (location c) of
        Inl err \<Rightarrow> (Inl err, c)
      | Inr None \<Rightarrow> (Inl TypeError, c)
      | Inr (Some e) \<Rightarrow>
          (let c1 = storeEnclosing (insertNode (cursorIndex c) node e) c;
               c2 = notifyUpdates (c1\<lparr>cursorIndex := cursorIndex c1 + 1\<rparr>)
           in (Inr (cursorIndex c2 - 1), c2)))"

definition insertCharacterAtCursor :: "string \<Rightarrow> string \<Rightarrow> Cursor \<Rightarrow> unit outcome" where
  "insertCharacterAtCursor character fresh c =
     (case getEnclosingExpression (location c) of
        Inl err \<Rightarrow> (Inl err, c)
      | Inr None \<Rightarrow> (Inl TypeError, c)
      | Inr (Some e) \<Rightarrow>
          (let c1 = storeEnclosing
                      (insertNode (cursorIndex c) (newNode fresh (MathCharacter character)) e) c
           in (Inr (), notifyUpdates (c1\<lparr>cursorIndex := cursorIndex c1 + 1\<rparr>))))"

definition deleteCharacterAtCursor :: "Cursor \<Rightarrow> unit outcome" where
  "deleteCharacterAtCursor c =
     (case getEnclosingExpression (location c) of
        Inl err \<Rightarrow> (Inl err, c)
      | Inr None \<Rightarrow> (Inl TypeError, c)
      | Inr (Some e) \<Rightarrow>
          (case removeNthNode (cursorIndex c - 1) e of
             Inl err \<Rightarrow> (Inl err, c)
           | Inr e' \<Rightarrow>
               (let c1 = storeEnclosing e' c
                in (Inr (), notifyUpdates (c1\<lparr>cursorIndex := cursorIndex c1 - 1\<rparr>)))))"

definition removeEnclosingNode :: "Cursor \<Rightarrow> unit outcome" where
  "removeEnclosingNode c =
     (if atRoot (location c) then (Inl NoEnclosingNode, c)
      else
        (case pop (location c) of
           Inl err \<Rightarrow> (Inl err, c)
         | Inr (link, loc') \<Rightarrow>
             (let c1 = c\<lparr>location := loc'\<rparr> in
              case getEnclosingExpression (location c1) of
                Inl err \<Rightarrow> (Inl err, c1)
              | Inr None \<Rightarrow> (Inl TypeError, c1)
              | Inr (Some e) \<Rightarrow>
                  (case removeNthNode (nodeIndex link) e of
                     Inl err \<Rightarrow> (Inl err, c1)
                   | Inr e' \<Rightarrow>
                       (let c2 = storeEnclosing e' c1
                        in (Inr (), notifyUpdates (c2\<lparr>cursorIndex := nodeIndex link\<rparr>)))))))"

definition moveRight :: "Cursor \<Rightarrow> unit outcome" where
  "moveRight c =
     (case getEnclosingExpression (location c) of
        Inl err \<Rightarrow> (Inl err, c)
      | Inr None \<Rightarrow> (Inl TypeError, c)
      | Inr (Some expression) \<Rightarrow>
          andThen
            (if cursorIndex c = int (length (getNodes expression)) then
               (if \<not> atRoot (location c) then andThen (leaveNode Right c) (\<lambda>link c'. (Inr (), c'))
                else (Inr (), c))
             else
               (case nth_js (getNodes expression) (cursorIndex c) of
                  None \<Rightarrow> (Inl TypeError, c)
                | Some nextNode \<Rightarrow>
                    (if length (children nextNode) \<noteq> 0 then enterNode (cursorIndex c) 0 Right c
                     else (Inr (), c\<lparr>cursorIndex := cursorIndex c + 1\<rparr>))))
            (\<lambda>u c'. (Inr (), notifyUpdates c')))"

definition moveLeft :: "Cursor \<Rightarrow> unit outcome" where
  "moveLeft c =
     (case getEnclosingExpression (location c) of
        Inl err \<Rightarrow> (Inl err, c)
      | Inr None \<Rightarrow> (Inl TypeError, c)
      | Inr (Some expression) \<Rightarrow>
          andThen
            (if cursorIndex c = 0 then
               (if \<not> atRoot (location c) then andThen (leaveNode Left c) (\<lambda>link c'. (Inr (), c'))
                else (Inr (), c))
             else
               (case nth_js (getNodes expression) (cursorIndex c - 1) of
                  None \<Rightarrow> (Inl TypeError, c)
                | Some previousNode \<Rightarrow>
                    (if length (children previousNode) \<noteq> 0
                     then enterNode (cursorIndex c - 1) 0 Left c
                     else (Inr (), c\<lparr>cursorIndex := cursorIndex c - 1\<rparr>))))
            (\<lambda>u c'. (Inr (), notifyUpdates c')))"

definition moveDown :: "Cursor \<Rightarrow> unit outcome" where
  "moveDown c =
     (if \<not> atRoot (location c) then
        (case getTopLevelLink (location c) of
           Inl err \<Rightarrow> (Inl err, c)
         | Inr link \<Rightarrow>
            (case resolveLinkInfo (location c) link of
               Inl err \<Rightarrow> (Inl err, c)
             | Inr info \<Rightarrow>
                (case enclosingNode info of
                   None \<Rightarrow> (Inl TypeError, c)
                 | Some en \<Rightarrow>
                     (let currentChildIndex = childIndex link in
                      if currentChildIndex < int (length (children en)) - 1 then
                        andThen (leaveNode Left c)
                          (\<lambda>l. enterNode (nodeIndex link) (currentChildIndex + 1) Left)
                      else (Inr (), c)))))
      else (Inr (), c))"

definition moveUp :: "Cursor \<Rightarrow> unit outcome" where
  "moveUp c =
     (if \<not> atRoot (location c) then
        (case getTopLevelLink (location c) of
           Inl err \<Rightarrow> (Inl err, c)
         | Inr link \<Rightarrow>
            (case resolveLinkInfo (location c) link of
               Inl err \<Rightarrow> (Inl err, c)
             | Inr info \<Rightarrow>
                (case enclosingNode info of
                   None \<Rightarrow> (Inl TypeError, c)
                 | Some en \<Rightarrow>
                     (let currentChildIndex = childIndex link in
                      if currentChildIndex > 0 then
                        andThen (leaveNode Left c)
                          (\<lambda>l. enterNode (nodeIndex link) (currentChildIndex - 1) Right)
                      else (Inr (), c)))))
      else (Inr (), c))"

subsection \<open>The key dispatcher\<close>

definition ALPHANUM :: string where
  "ALPHANUM = ''abcdefghijklmnopqrstuvwxyzABCDEFGHIJKLMNOPQRSTUVWXYZ0123456789''"

text \<open>
  What \<^verbatim>\<open>handleKeydown\<close> reads from its environment: the clock, the identifier the next
  constructed node gets, and whether the cursor's element is in the document
  (\<^verbatim>\<open>getCursorElement\<close> throws when it is not).
\<close>

record KeyEnv =
  now :: int
  freshId :: string
  cursorShown :: bool

definition getCursorElement :: "KeyEnv \<Rightarrow> Cursor \<Rightarrow> unit outcome" where
  "getCursorElement env c = (if cursorShown env then (Inr (), c) else (Inl CursorNotDisplayed, c))"

definition insertAndEnter :: "MathNode \<Rightarrow> Cursor \<Rightarrow> unit outcome" where
  "insertAndEnter node c = andThen (insertNodeAtCursor node c) (\<lambda>index. enterNode index 0 Right)"

definition handleKeydown :: "string \<Rightarrow> KeyEnv \<Rightarrow> Cursor \<Rightarrow> unit outcome" where
  "handleKeydown key env c =
     (let c0 = notifyUpdates (c\<lparr>lastBlinkInterrupt := now env, blinkState := True\<rparr>) in
      if string_includes ALPHANUM key then insertCharacterAtCursor key (freshId env) c0
      else if string_includes ''!@#&-=+':<>,.?|'' key then
        insertCharacterAtCursor key (freshId env) c0
      else if key = ''*'' then insertCharacterAtCursor (backslash @ ''cdot'') (freshId env) c0
      else if key = ''%'' then insertCharacterAtCursor (backslash @ ''%'') (freshId env) c0
      else if key = ''$'' then insertCharacterAtCursor (backslash @ ''$'') (freshId env) c0
      else if key = '' '' then insertCharacterAtCursor ''~'' (freshId env) c0
      else if key = ''Backspace'' then
        (if cursorIndex c0 = 0 then removeEnclosingNode c0 else deleteCharacterAtCursor c0)
      else if key = backslash then
        andThen (getCursorElement env c0) (\<lambda>u c1. (Inr (), c1\<lparr>searchMenuOpen := True\<rparr>))
      else if key = ''('' then insertAndEnter (newNode (freshId env) (Bracket ''('' '')'')) c0
      else if key = ''{'' then
        insertAndEnter (newNode (freshId env) (Bracket (backslash @ ''{'') (backslash @ ''}''))) c0
      else if key = ''['' then insertAndEnter (newNode (freshId env) (Bracket ''['' '']'')) c0
      else if key = ''/'' then insertAndEnter (newNode (freshId env) Fraction) c0
      else if key = ''_'' then insertAndEnter (newNode (freshId env) Subscript) c0
      else if key = ''^'' then insertAndEnter (newNode (freshId env) Superscript) c0
      else if key = ''ArrowRight'' then moveRight c0
      else if key = ''ArrowLeft'' then moveLeft c0
      else if key = ''ArrowDown'' then moveDown c0
      else if key = ''ArrowUp'' then moveUp c0
      else (Inr (), c0))"

subsection \<open>Rendering\<close>

definition getElementID :: "string \<Rightarrow> string" where
  "getElementID nid = ''node-'' @ nid"

definition getHTMLPrefix :: "string \<Rightarrow> string" where
  "getHTMLPrefix nid = backslash @ ''htmlId{'' @ getElementID nid @ ''}''"

text \<open>How many of its children a node's \<^verbatim>\<open>renderAsLaTeX\<close> renders, from index 0 on.\<close>

fun childrenRendered :: "NodeKind \<Rightarrow> nat" where
  "childrenRendered (MathCharacter ch) = 0"
| "childrenRendered Fraction = 2"
| "childrenRendered (IntegralType cmd) = 2"
| "childrenRendered EvaluatedFrom = 2"
| "childrenRendered Sum = 2"
| "childrenRendered Product = 2"
| "childrenRendered BigUnion = 2"
| "childrenRendered BigIntersection = 2"
| "childrenRendered (SubscriptableFunction f) = 1"
| "childrenRendered (CommandEnclosable cmd) = 1"
| "childrenRendered Limit = 1"
| "childrenRendered (Bracket l r) = 1"
| "childrenRendered Superscript = 1"
| "childrenRendered Subscript = 1"

text \<open>
  The text each subclass puts after the prefix, from its rendered children \<open>rs\<close>
  (\<open>rs ! 0\<close> is the rendering of \<^verbatim>\<open>children[0]\<close>).
\<close>

fun template :: "NodeKind \<Rightarrow> string list \<Rightarrow> string" where
  "template (MathCharacter ch) rs = ch"
| "template Fraction rs =
     ''{'' @ backslash @ ''frac{'' @ rs ! 0 @ ''}{'' @ rs ! 1 @ ''}}''"
| "template (IntegralType commandName) rs =
     ''{'' @ backslash @ ''displaystyle'' @ backslash @ commandName @
     ''_{'' @ rs ! 1 @ ''}^{'' @ rs ! 0 @ ''}}''"
| "template EvaluatedFrom rs =
     ''{'' @ backslash @ ''displaystyle{'' @ backslash @ ''Large'' @ backslash @ ''vert}_{'' @
     rs ! 1 @ ''}^{'' @ rs ! 0 @ ''}}''"
| "template Sum rs =
     ''{'' @ backslash @ ''displaystyle'' @ backslash @ ''sum_{'' @ rs ! 1 @ ''}^{'' @ rs ! 0 @ ''}}''"
| "template Product rs =
     ''{'' @ backslash @ ''displaystyle'' @ backslash @ ''prod_{'' @ rs ! 1 @ ''}^{'' @ rs ! 0 @ ''}}''"
| "template BigUnion rs =
     ''{'' @ backslash @ ''displaystyle'' @ backslash @ ''bigcup_{'' @ rs ! 1 @ ''}^{'' @ rs ! 0 @ ''}}''"
| "template BigIntersection rs =
     ''{'' @ backslash @ ''displaystyle'' @ backslash @ ''bigcap_{'' @ rs ! 1 @ ''}^{'' @ rs ! 0 @ ''}}''"
| "template (SubscriptableFunction functionName) rs =
     ''{'' @ backslash @ ''displaystyle'' @ backslash @ functionName @ ''_{'' @ rs ! 0 @ ''}}''"
| "template (CommandEnclosable command) rs = ''{'' @ command @ ''{'' @ rs ! 0 @ ''}}''"
| "template Limit rs =
     ''{'' @ backslash @ ''displaystyle'' @ backslash @ ''lim_{'' @ rs ! 0 @ ''}}''"
| "template (Bracket opening closing) rs =
     ''{'' @ backslash @ ''kern-0.1em'' @ backslash @ ''left'' @ opening @ rs ! 0 @
     backslash @ ''right'' @ closing @ ''}''"
| "template Superscript rs = ''{{}^{'' @ rs ! 0 @ ''}}''"
| "template Subscript rs = ''{{}_{'' @ rs ! 0 @ ''}}''"

text \<open>
  The test \<^verbatim>\<open>cursor.getEnclosingExpression() === this\<close> compares objects. The renderer
  therefore carries \<open>here\<close>, the links from the root to the expression being rendered, and
  the test holds when the cursor's path resolves to an expression and its links are
  \<open>here\<close>.
\<close>

type_synonym address = "(int \<times> int) list"

definition cursorAddress :: "Cursor \<Rightarrow> address" where
  "cursorAddress c = map (\<lambda>l. (nodeIndex l, childIndex l)) (enclosingLinks (location c))"

definition isEnclosingExpression :: "Cursor \<Rightarrow> address \<Rightarrow> error + bool" where
  "isEnclosingExpression c here =
     (case getEnclosingExpression (location c) of
        Inl err \<Rightarrow> Inl err
      | Inr None \<Rightarrow> Inr False
      | Inr (Some e) \<Rightarrow> Inr (cursorAddress c = here))"

definition placeholder :: string where
  "placeholder = ''~''"

fun renderAsLaTeX :: "Cursor \<Rightarrow> address \<Rightarrow> MathExpression \<Rightarrow> error + string"
  and renderNodes :: "Cursor \<Rightarrow> address \<Rightarrow> int \<Rightarrow> MathNode list \<Rightarrow> error + string list"
  and node_renderAsLaTeX :: "Cursor \<Rightarrow> address \<Rightarrow> int \<Rightarrow> MathNode \<Rightarrow> error + string"
  and renderChildren ::
    "Cursor \<Rightarrow> address \<Rightarrow> int \<Rightarrow> int \<Rightarrow> nat \<Rightarrow> MathExpression list \<Rightarrow> error + string list"
where
  "renderAsLaTeX c here (MathExpression ns) =
     (case renderNodes c here 0 ns of
        Inl err \<Rightarrow> Inl err
      | Inr renderedParts \<Rightarrow>
         (case isEnclosingExpression c here of
            Inl err \<Rightarrow> Inl err
          | Inr this \<Rightarrow>
             (let renderedParts' =
                    (if this then array_splice (getCursorIndex c) 0 [renderAsLatex c] renderedParts
                     else renderedParts);
                  rendered = join '' '' renderedParts'
              in if rendered = [] then Inr placeholder else Inr rendered)))"
| "renderNodes c here i [] = Inr []"
| "renderNodes c here i (n # ns) =
     (case node_renderAsLaTeX c here i n of
        Inl err \<Rightarrow> Inl err
      | Inr r \<Rightarrow>
         (case renderNodes c here (i + 1) ns of
            Inl err \<Rightarrow> Inl err
          | Inr rs \<Rightarrow> Inr (r # rs)))"
| "node_renderAsLaTeX c here i (MathNode nid k cs) =
     (case renderChildren c here i 0 (childrenRendered k) cs of
        Inl err \<Rightarrow> Inl err
      | Inr rs \<Rightarrow> Inr (getHTMLPrefix nid @ template k rs))"
| "renderChildren c here i j 0 cs = Inr []"
| "renderChildren c here i j (Suc m) [] = Inl TypeError"
| "renderChildren c here i j (Suc m) (ch # cs) =
     (case renderAsLaTeX c (here @ [(i, j)]) ch of
        Inl err \<Rightarrow> Inl err
      | Inr r \<Rightarrow>
         (case renderChildren c here i (j + 1) m cs of
            Inl err \<Rightarrow> Inl err
          | Inr rs \<Rightarrow> Inr (r # rs)))"

text \<open>Rendering the whole document: the root expression, with the cursor.\<close>

definition renderRoot :: "Cursor \<Rightarrow> error + string" where
  "renderRoot c = renderAsLaTeX c [] (root c)"

subsection \<open>Reachable cursor states and the notions used to reason about them\<close>

text \<open>
  The states a cursor can be in: the state its constructor builds, and those the public
  operations lead to, each under its precondition (\<^verbatim>\<open>enterNode\<close> with a node index and a
  child index that exist in the enclosing expression, \<^verbatim>\<open>leaveNode\<close> and
  \<^verbatim>\<open>removeEnclosingNode\<close> away from the root, \<^verbatim>\<open>deleteCharacterAtCursor\<close> with a node before
  the cursor). The state after an operation is the second component of its outcome.
  The node given to \<^verbatim>\<open>insertNodeAtCursor\<close> is any node content; as the tree holds values,
  it enters the tree as an object of its own.
\<close>

inductive reachable :: "Cursor \<Rightarrow> bool" where
  initial: "reachable (newCursor r)"
| enterNode:
    "reachable c \<Longrightarrow> getEnclosingExpression (location c) = Inr (Some e) \<Longrightarrow>
     nth_js (getNodes e) ni = Some n \<Longrightarrow> nth_js (children n) ci = Some ch \<Longrightarrow>
     reachable (snd (enterNode ni ci dir c))"
| leaveNode: "reachable c \<Longrightarrow> \<not> atRoot (location c) \<Longrightarrow> reachable (snd (leaveNode dir c))"
| removeEnclosingNode:
    "reachable c \<Longrightarrow> \<not> atRoot (location c) \<Longrightarrow> reachable (snd (removeEnclosingNode c))"
| deleteCharacterAtCursor:
    "reachable c \<Longrightarrow> cursorIndex c > 0 \<Longrightarrow> reachable (snd (deleteCharacterAtCursor c))"
| moveRight: "reachable c \<Longrightarrow> reachable (snd (moveRight c))"
| moveLeft: "reachable c \<Longrightarrow> reachable (snd (moveLeft c))"
| moveUp: "reachable c \<Longrightarrow> reachable (snd (moveUp c))"
| moveDown: "reachable c \<Longrightarrow> reachable (snd (moveDown c))"
| insertCharacterAtCursor:
    "reachable c \<Longrightarrow> reachable (snd (insertCharacterAtCursor character fresh c))"
| insertNodeAtCursor: "reachable c \<Longrightarrow> reachable (snd (insertNodeAtCursor node c))"
| handleKeydown: "reachable c \<Longrightarrow> reachable (snd (handleKeydown key env c))"
| focus: "reachable c \<Longrightarrow> reachable (focus t c)"
| blur: "reachable c \<Longrightarrow> reachable (blur c)"
| blinkTick: "reachable c \<Longrightarrow> reachable (blinkTick t c)"
| onUpdate: "reachable c \<Longrightarrow> reachable (onUpdate cb c)"
| onFocusRequested: "reachable c \<Longrightarrow> reachable (onFocusRequested cb c)"

text \<open>
  Auxiliary notions for the proofs, none of them part of the program: the expression a list
  of links leads to, by recursion on the links; the loop of \<^verbatim>\<open>resolveLinkInfo\<close> as a
  recursion on the links it walks; paths whose links carry their own position in \<open>_i\<close>; and
  the invariant that the path resolves and the cursor index lies within the enclosing
  expression.
\<close>

primrec resolvePath :: "CursorPathLink list \<Rightarrow> MathExpression \<Rightarrow> MathExpression option" where
  "resolvePath [] e = Some e"
| "resolvePath (l # ls) e =
     (case nth_js (getNodes e) (nodeIndex l) of
        None \<Rightarrow> None
      | Some n \<Rightarrow>
         (case nth_js (children n) (childIndex l) of
            None \<Rightarrow> None
          | Some ch \<Rightarrow> resolvePath ls ch))"

primrec resolveInfo ::
  "CursorPathLink list \<Rightarrow> MathExpression option \<Rightarrow> MathNode option \<Rightarrow> error + LocationInfo" where
  "resolveInfo [] ce cn = Inr \<lparr>enclosingExpression = ce, enclosingNode = cn\<rparr>"
| "resolveInfo (l # ls) ce cn =
     (case ce of
        None \<Rightarrow> Inl TypeError
      | Some e \<Rightarrow>
         (case nth_js (getNodes e) (nodeIndex l) of
            None \<Rightarrow> Inl TypeError
          | Some n \<Rightarrow> resolveInfo ls (nth_js (children n) (childIndex l)) (Some n)))"

definition indexed :: "CursorPathLink list \<Rightarrow> bool" where
  "indexed p = (\<forall>k < length p. link_i (p ! k) = int k)"

definition cursor_inv :: "Cursor \<Rightarrow> bool" where
  "cursor_inv c \<longleftrightarrow>
     indexed (path c) \<and>
     (case resolvePath (path c) (root c) of
        None \<Rightarrow> False
      | Some e \<Rightarrow> 0 \<le> cursorIndex c \<and> cursorIndex c \<le> int (length (getNodes e)))"

subsection \<open>Example states\<close>

text \<open>An empty document into which a fraction is inserted; then the cursor in its numerator.\<close>

definition fractionCursor :: Cursor where
  "fractionCursor =
     snd (insertNodeAtCursor (newNode ''f'' Fraction) (newCursor (MathExpression [])))"

definition numeratorCursor :: Cursor where
  "numeratorCursor = snd (enterNode 0 0 Right fractionCursor)"

text \<open>
  A document with one fraction, \<open>a\<close> over \<open>bc\<close>; the cursor at the start of the numerator,
  and the cursor at the end of the denominator.
\<close>

definition sampleRoot :: MathExpression where
  "sampleRoot =
     MathExpression
       [MathNode ''f'' Fraction
          [MathExpression [newNode ''a'' (MathCharacter ''a'')],
           MathExpression [newNode ''b'' (MathCharacter ''b''), newNode ''c'' (MathCharacter ''c'')]]]"

definition inNumerator :: Cursor where
  "inNumerator = snd (enterNode 0 0 Right (newCursor sampleRoot))"

definition inDenominator :: Cursor where
  "inDenominator = snd (enterNode 0 1 Left (newCursor sampleRoot))"

text \<open>
  \<open>notifiedSeeing ss c c'\<close>: between the states \<open>c\<close> and \<open>c'\<close> nothing was invoked except, once
  for each entry of \<open>ss\<close> and in that order, all the callbacks registered in \<open>c\<close>, in
  registration order, each finding the cursor as that entry describes it; the registrations
  are the same. With \<open>observe c'\<close> as the last entry, the last round of calls found the cursor
  as the operation leaves it: no field was written after it. \<open>observed c\<close> is \<open>c\<close> with one
  callback registered.
\<close>

definition calls :: "callback list \<Rightarrow> Observation \<Rightarrow> (callback \<times> Observation) list" where
  "calls cbs seen = map (\<lambda>cb. (cb, seen)) cbs"

definition notifiedSeeing :: "Observation list \<Rightarrow> Cursor \<Rightarrow> Cursor \<Rightarrow> bool" where
  "notifiedSeeing ss c c' \<longleftrightarrow>
     invoked c' = invoked c @ concat (map (calls (onUpdateCallbacks c)) ss) \<and>
     onUpdateCallbacks c' = onUpdateCallbacks c"

definition observed :: "Cursor \<Rightarrow> Cursor" where
  "observed c = onUpdate 7 c"



section \<open>Expressions and nodes as shared objects\<close>

text \<open>
  In the program a \<^verbatim>\<open>MathExpression\<close> and a \<^verbatim>\<open>MathNode\<close> are objects: \<^verbatim>\<open>_nodes\<close> holds
  references to node objects, \<^verbatim>\<open>children\<close> references to expression objects, and
  \<^verbatim>\<open>insertNode\<close> stores the very reference it is given. The tree of values of the first
  section describes this as long as every node that is inserted is an object that is not
  in the tree yet, which is how the editor itself calls \<^verbatim>\<open>insertNodeAtCursor\<close>. The method
  accepts any node, however, also one that is in the tree already; then one object is
  reachable along several paths, and a mutation of it is seen along all of them. This
  section keeps the objects in a store, so that such sharing can be expressed: a reference
  is a number, \<open>nodesOf\<close> is the \<^verbatim>\<open>_nodes\<close> array of each expression object, and \<open>childrenOf\<close>,
  \<open>kindOf\<close> and \<open>idOf\<close> are the \<^verbatim>\<open>children\<close> array, the subclass with its fields and the
  \<^verbatim>\<open>id\<close> of each node object. The expression objects constructed so far are the references
  below \<open>expressionCount\<close>, the node objects those below \<open>nodeCount\<close>.
\<close>

subsection \<open>The store (math.ts)\<close>

record ObjectStore =
  nodesOf :: "nat \<Rightarrow> nat list"
  childrenOf :: "nat \<Rightarrow> nat list"
  kindOf :: "nat \<Rightarrow> NodeKind"
  idOf :: "nat \<Rightarrow> string"
  expressionCount :: nat
  nodeCount :: nat

text \<open>\<^verbatim>\<open>new MathExpression()\<close>: a new object, with an empty \<^verbatim>\<open>_nodes\<close>.\<close>

definition new_MathExpression :: "ObjectStore \<Rightarrow> nat \<times> ObjectStore" where
  "new_MathExpression s =
     (expressionCount s,
      s\<lparr>nodesOf := (nodesOf s)(expressionCount s := []),
        expressionCount := expressionCount s + 1\<rparr>)"

text \<open>
  The constructors of the node classes: a new node object whose \<^verbatim>\<open>children\<close> are as many new
  empty expression objects as the class has children (none, one or two).
\<close>

definition new_MathNode :: "string \<Rightarrow> NodeKind \<Rightarrow> ObjectStore \<Rightarrow> nat \<times> ObjectStore" where
  "new_MathNode fresh k s =
     (let kids = [expressionCount s ..< expressionCount s + length (initialChildren k)] in
      (nodeCount s,
       s\<lparr>nodesOf := (\<lambda>e. if e \<in> set kids then [] else nodesOf s e),
         childrenOf := (childrenOf s)(nodeCount s := kids),
         kindOf := (kindOf s)(nodeCount s := k),
         idOf := (idOf s)(nodeCount s := fresh),
         expressionCount := expressionCount s + length (initialChildren k),
         nodeCount := nodeCount s + 1\<rparr>))"

text \<open>
  \<^verbatim>\<open>MathExpression.insertNode\<close> and \<^verbatim>\<open>MathExpression.removeNthNode\<close> on the expression
  object \<open>this\<close>: the array of that one object is spliced, and the reference \<open>node\<close> itself
  is what is stored.
\<close>

definition insertNode_obj :: "int \<Rightarrow> nat \<Rightarrow> nat \<Rightarrow> ObjectStore \<Rightarrow> ObjectStore" where
  "insertNode_obj before node this s =
     s\<lparr>nodesOf := (nodesOf s)(this := array_splice before 0 [node] (nodesOf s this))\<rparr>"

definition removeNthNode_obj :: "int \<Rightarrow> nat \<Rightarrow> ObjectStore \<Rightarrow> error + ObjectStore" where
  "removeNthNode_obj index this s =
     (if index < 0 \<or> index \<ge> int (length (nodesOf s this)) then Inl OutOfBounds
      else Inr (s\<lparr>nodesOf := (nodesOf s)(this := array_splice index 1 [] (nodesOf s this))\<rparr>))"

subsection \<open>The cursor on the store (cursor.ts)\<close>

text \<open>
  The fields of the cursor that the ten operations read or write: the root and the path of
  its \<^verbatim>\<open>_location\<close>, the cursor index and the update callbacks, together with the store of
  the objects. Every call of a callback is recorded with the path and the index it finds.
\<close>

record ObjectCursor =
  objects :: ObjectStore
  root_obj :: nat                       \<comment> \<open>\<^verbatim>\<open>_location._root\<close>, also \<^verbatim>\<open>root\<close>\<close>
  path_obj :: "CursorPathLink list"     \<comment> \<open>\<^verbatim>\<open>_location._path\<close>\<close>
  cursorIndex_obj :: int                \<comment> \<open>\<^verbatim>\<open>_cursorIndex\<close>\<close>
  onUpdateCallbacks_obj :: "callback list"
  invoked_obj :: "(callback \<times> CursorPathLink list \<times> int) list"

record ObjectInfo =
  enclosingExpression_obj :: "nat option"
  enclosingNode_obj :: "nat option"

definition newCursor_obj :: "ObjectStore \<Rightarrow> nat \<Rightarrow> ObjectCursor" where
  "newCursor_obj s r =
     \<lparr>objects = s, root_obj = r, path_obj = [], cursorIndex_obj = 0,
      onUpdateCallbacks_obj = [], invoked_obj = []\<rparr>"

definition notifyUpdates_obj :: "ObjectCursor \<Rightarrow> ObjectCursor" where
  "notifyUpdates_obj c =
     c\<lparr>invoked_obj := invoked_obj c @
         map (\<lambda>cb. (cb, path_obj c, cursorIndex_obj c)) (onUpdateCallbacks_obj c)\<rparr>"

definition moveInto_obj :: "int \<Rightarrow> int \<Rightarrow> ObjectCursor \<Rightarrow> ObjectCursor" where
  "moveInto_obj ni ci c =
     c\<lparr>path_obj := path_obj c @
       [\<lparr>nodeIndex = ni, childIndex = ci, link_i = int (length (path_obj c))\<rparr>]\<rparr>"

text \<open>The loop of \<^verbatim>\<open>resolveLinkInfo\<close>, reading the arrays of the objects it passes.\<close>

function resolveLoop_obj ::
  "ObjectCursor \<Rightarrow> CursorPathLink \<Rightarrow> int \<Rightarrow> nat option \<Rightarrow> nat option \<Rightarrow> error + ObjectInfo" where
  "resolveLoop_obj c link i currentExpression currentNode =
     (if i \<le> link_i link then
        (case currentExpression of
           None \<Rightarrow> Inl TypeError
         | Some ce \<Rightarrow>
            (case nth_js (path_obj c) i of
               None \<Rightarrow> Inl TypeError
             | Some nextLink \<Rightarrow>
                (case nth_js (nodesOf (objects c) ce) (nodeIndex nextLink) of
                   None \<Rightarrow> Inl TypeError
                 | Some cn \<Rightarrow>
                     resolveLoop_obj c link (i + 1)
                       (nth_js (childrenOf (objects c) cn) (childIndex nextLink)) (Some cn))))
      else Inr \<lparr>enclosingExpression_obj = currentExpression, enclosingNode_obj = currentNode\<rparr>)"
  by pat_completeness auto
termination
  by (relation "measure (\<lambda>(c, link, i, ce, cn). nat (link_i link + 1 - i))") auto

definition resolveLinkInfo_obj :: "ObjectCursor \<Rightarrow> CursorPathLink \<Rightarrow> error + ObjectInfo" where
  "resolveLinkInfo_obj c link = resolveLoop_obj c link 0 (Some (root_obj c)) None"

definition atRoot_obj :: "ObjectCursor \<Rightarrow> bool" where
  "atRoot_obj c = (length (path_obj c) = 0)"

text \<open>
  \<^verbatim>\<open>getEnclosingExpression\<close>: the reference of the enclosing expression object, \<open>Inr None\<close>
  when the code returns \<^verbatim>\<open>undefined\<close>.
\<close>

definition getEnclosingExpression_obj :: "ObjectCursor \<Rightarrow> error + nat option" where
  "getEnclosingExpression_obj c =
     (if \<not> atRoot_obj c then
        (case resolveLinkInfo_obj c (last (path_obj c)) of
           Inl err \<Rightarrow> Inl err
         | Inr info \<Rightarrow> Inr (enclosingExpression_obj info))
      else Inr (Some (root_obj c)))"

definition getTopLevelLink_obj :: "ObjectCursor \<Rightarrow> error + CursorPathLink" where
  "getTopLevelLink_obj c =
     (if \<not> atRoot_obj c then Inr (last (path_obj c)) else Inl EmptyStackTop)"

definition pop_obj :: "ObjectCursor \<Rightarrow> error + (CursorPathLink \<times> ObjectCursor)" where
  "pop_obj c =
     (if atRoot_obj c then Inl EmptyStackPop
      else Inr (last (path_obj c), c\<lparr>path_obj := butlast (path_obj c)\<rparr>))"

type_synonym 'a outcome_obj = "(error + 'a) \<times> ObjectCursor"

definition andThen_obj ::
  "'a outcome_obj \<Rightarrow> ('a \<Rightarrow> ObjectCursor \<Rightarrow> 'b outcome_obj) \<Rightarrow> 'b outcome_obj" where
  "andThen_obj r f = (case r of (Inl err, c) \<Rightarrow> (Inl err, c) | (Inr v, c) \<Rightarrow> f v c)"

definition enterNode_obj :: "int \<Rightarrow> int \<Rightarrow> direction \<Rightarrow> ObjectCursor \<Rightarrow> unit outcome_obj" where
  "enterNode_obj ni ci dir c =
     (let c1 = moveInto_obj ni ci c in
      if dir = Right then (Inr (), notifyUpdates_obj (c1\<lparr>cursorIndex_obj := 0\<rparr>))
      else
        (case getEnclosingExpression_obj c1 of
           Inl err \<Rightarrow> (Inl err, c1)
         | Inr None \<Rightarrow> (Inl TypeError, c1)
         | Inr (Some e) \<Rightarrow>
             (Inr (),
              notifyUpdates_obj
                (c1\<lparr>cursorIndex_obj := int (length (nodesOf (objects c1) e))\<rparr>))))"

definition leaveNode_obj :: "direction \<Rightarrow> ObjectCursor \<Rightarrow> CursorPathLink outcome_obj" where
  "leaveNode_obj dir c =
     (case pop_obj c of
        Inl err \<Rightarrow> (Inl err, c)
      | Inr (link, c1) \<Rightarrow>
          (Inr link,
           notifyUpdates_obj
             (c1\<lparr>cursorIndex_obj := (if dir = Left then nodeIndex link else nodeIndex link + 1)\<rparr>)))"

text \<open>
  \<^verbatim>\<open>insertNodeAtCursor(node)\<close>: \<open>node\<close> is the reference of the node object the caller
  passes; it is spliced into the array of the enclosing expression object, whether or not
  it is stored somewhere already.
\<close>

definition insertNodeAtCursor_obj :: "nat \<Rightarrow> ObjectCursor \<Rightarrow> int outcome_obj" where
  "insertNodeAtCursor_obj node c =
     (case getEnclosingExpression_obj c of
        Inl err \<Rightarrow> (Inl err, c)
      | Inr None \<Rightarrow> (Inl TypeError, c)
      | Inr (Some e) \<Rightarrow>
          (let c1 = c\<lparr>objects := insertNode_obj (cursorIndex_obj c) node e (objects c)\<rparr>;
               c2 = notifyUpdates_obj (c1\<lparr>cursorIndex_obj := cursorIndex_obj c1 + 1\<rparr>)
           in (Inr (cursorIndex_obj c2 - 1), c2)))"

text \<open>\<^verbatim>\<open>insertCharacterAtCursor\<close> constructs the node it inserts.\<close>

definition insertCharacterAtCursor_obj ::
  "string \<Rightarrow> string \<Rightarrow> ObjectCursor \<Rightarrow> unit outcome_obj" where
  "insertCharacterAtCursor_obj character fresh c =
     (case getEnclosingExpression_obj c of
        Inl err \<Rightarrow> (Inl err, c)
      | Inr None \<Rightarrow> (Inl TypeError, c)
      | Inr (Some e) \<Rightarrow>
          (let (node, s1) = new_MathNode fresh (MathCharacter character) (objects c);
               c1 = c\<lparr>objects := insertNode_obj (cursorIndex_obj c) node e s1\<rparr>
           in (Inr (), notifyUpdates_obj (c1\<lparr>cursorIndex_obj := cursorIndex_obj c1 + 1\<rparr>))))"

definition deleteCharacterAtCursor_obj :: "ObjectCursor \<Rightarrow> unit outcome_obj" where
  "deleteCharacterAtCursor_obj c =
     (case getEnclosingExpression_obj c of
        Inl err \<Rightarrow> (Inl err, c)
      | Inr None \<Rightarrow> (Inl TypeError, c)
      | Inr (Some e) \<Rightarrow>
          (case removeNthNode_obj (cursorIndex_obj c - 1) e (objects c) of
             Inl err \<Rightarrow> (Inl err, c)
           | Inr s1 \<Rightarrow>
               (let c1 = c\<lparr>objects := s1\<rparr>
                in (Inr (),
                    notifyUpdates_obj (c1\<lparr>cursorIndex_obj := cursorIndex_obj c1 - 1\<rparr>)))))"

definition removeEnclosingNode_obj :: "ObjectCursor \<Rightarrow> unit outcome_obj" where
  "removeEnclosingNode_obj c =
     (if atRoot_obj c then (Inl NoEnclosingNode, c)
      else
        (case pop_obj c of
           Inl err \<Rightarrow> (Inl err, c)
         | Inr (link, c1) \<Rightarrow>
             (case getEnclosingExpression_obj c1 of
                Inl err \<Rightarrow> (Inl err, c1)
              | Inr None \<Rightarrow> (Inl TypeError, c1)
              | Inr (Some e) \<Rightarrow>
                  (case removeNthNode_obj (nodeIndex link) e (objects c1) of
                     Inl err \<Rightarrow> (Inl err, c1)
                   | Inr s1 \<Rightarrow>
                       (Inr (),
                        notifyUpdates_obj
                          (c1\<lparr>objects := s1, cursorIndex_obj := nodeIndex link\<rparr>))))))"

definition moveRight_obj :: "ObjectCursor \<Rightarrow> unit outcome_obj" where
  "moveRight_obj c =
     (case getEnclosingExpression_obj c of
        Inl err \<Rightarrow> (Inl err, c)
      | Inr None \<Rightarrow> (Inl TypeError, c)
      | Inr (Some expression) \<Rightarrow>
          andThen_obj
            (if cursorIndex_obj c = int (length (nodesOf (objects c) expression)) then
               (if \<not> atRoot_obj c then andThen_obj (leaveNode_obj Right c) (\<lambda>link c'. (Inr (), c'))
                else (Inr (), c))
             else
               (case nth_js (nodesOf (objects c) expression) (cursorIndex_obj c) of
                  None \<Rightarrow> (Inl TypeError, c)
                | Some nextNode \<Rightarrow>
                    (if length (childrenOf (objects c) nextNode) \<noteq> 0
                     then enterNode_obj (cursorIndex_obj c) 0 Right c
                     else (Inr (), c\<lparr>cursorIndex_obj := cursorIndex_obj c + 1\<rparr>))))
            (\<lambda>u c'. (Inr (), notifyUpdates_obj c')))"

definition moveLeft_obj :: "ObjectCursor \<Rightarrow> unit outcome_obj" where
  "moveLeft_obj c =
     (case getEnclosingExpression_obj c of
        Inl err \<Rightarrow> (Inl err, c)
      | Inr None \<Rightarrow> (Inl TypeError, c)
      | Inr (Some expression) \<Rightarrow>
          andThen_obj
            (if cursorIndex_obj c = 0 then
               (if \<not> atRoot_obj c then andThen_obj (leaveNode_obj Left c) (\<lambda>link c'. (Inr (), c'))
                else (Inr (), c))
             else
               (case nth_js (nodesOf (objects c) expression) (cursorIndex_obj c - 1) of
                  None \<Rightarrow> (Inl TypeError, c)
                | Some previousNode \<Rightarrow>
                    (if length (childrenOf (objects c) previousNode) \<noteq> 0
                     then enterNode_obj (cursorIndex_obj c - 1) 0 Left c
                     else (Inr (), c\<lparr>cursorIndex_obj := cursorIndex_obj c - 1\<rparr>))))
            (\<lambda>u c'. (Inr (), notifyUpdates_obj c')))"

definition moveDown_obj :: "ObjectCursor \<Rightarrow> unit outcome_obj" where
  "moveDown_obj c =
     (if \<not> atRoot_obj c then
        (case getTopLevelLink_obj c of
           Inl err \<Rightarrow> (Inl err, c)
         | Inr link \<Rightarrow>
            (case resolveLinkInfo_obj c link of
               Inl err \<Rightarrow> (Inl err, c)
             | Inr info \<Rightarrow>
                (case enclosingNode_obj info of
                   None \<Rightarrow> (Inl TypeError, c)
                 | Some en \<Rightarrow>
                     (let currentChildIndex = childIndex link in
                      if currentChildIndex < int (length (childrenOf (objects c) en)) - 1 then
                        andThen_obj (leaveNode_obj Left c)
                          (\<lambda>l. enterNode_obj (nodeIndex link) (currentChildIndex + 1) Left)
                      else (Inr (), c)))))
      else (Inr (), c))"

definition moveUp_obj :: "ObjectCursor \<Rightarrow> unit outcome_obj" where
  "moveUp_obj c =
     (if \<not> atRoot_obj c then
        (case getTopLevelLink_obj c of
           Inl err \<Rightarrow> (Inl err, c)
         | Inr link \<Rightarrow>
            (case resolveLinkInfo_obj c link of
               Inl err \<Rightarrow> (Inl err, c)
             | Inr info \<Rightarrow>
                (case enclosingNode_obj info of
                   None \<Rightarrow> (Inl TypeError, c)
                 | Some en \<Rightarrow>
                     (let currentChildIndex = childIndex link in
                      if currentChildIndex > 0 then
                        andThen_obj (leaveNode_obj Left c)
                          (\<lambda>l. enterNode_obj (nodeIndex link) (currentChildIndex - 1) Right)
                      else (Inr (), c)))))
      else (Inr (), c))"

text \<open>The host constructing a node, to pass it to \<^verbatim>\<open>insertNodeAtCursor\<close> later.\<close>

definition construct :: "string \<Rightarrow> NodeKind \<Rightarrow> ObjectCursor \<Rightarrow> ObjectCursor" where
  "construct fresh k c = c\<lparr>objects := snd (new_MathNode fresh k (objects c))\<rparr>"

subsection \<open>Containment, and the states the operations reach\<close>

text \<open>
  \<open>below s\<close> relates a child expression of a node to the expression that holds the node;
  an expression \<open>a\<close> lies inside an expression \<open>b\<close>, or is \<open>b\<close>, when \<open>(a, b)\<close> is in its
  reflexive transitive closure. A store is well formed when no expression lies inside a
  child expression of one of its own nodes (the object graph has no cycle), and every
  stored reference is that of a constructed object.
\<close>

definition below :: "ObjectStore \<Rightarrow> (nat \<times> nat) set" where
  "below s = {(ch, e). \<exists>n \<in> set (nodesOf s e). ch \<in> set (childrenOf s n)}"

definition wellFormed :: "ObjectStore \<Rightarrow> bool" where
  "wellFormed s \<longleftrightarrow>
     acyclic (below s) \<and>
     (\<forall>e. \<forall>n \<in> set (nodesOf s e). n < nodeCount s) \<and>
     (\<forall>n. \<forall>ch \<in> set (childrenOf s n). ch < expressionCount s)"

text \<open>
  Which node objects \<^verbatim>\<open>insertNodeAtCursor\<close> may be given. Its signature asks for a node and
  nothing else: \<open>anyNode\<close>. The stricter \<open>apartNode\<close> asks in addition that the cursor's
  enclosing expression is not a child expression of the node and does not lie inside one;
  this is true of every node that has just been constructed.
\<close>

definition anyNode :: "ObjectCursor \<Rightarrow> nat \<Rightarrow> bool" where
  "anyNode c node \<longleftrightarrow> node < nodeCount (objects c)"

definition apartNode :: "ObjectCursor \<Rightarrow> nat \<Rightarrow> bool" where
  "apartNode c node \<longleftrightarrow>
     node < nodeCount (objects c) \<and>
     (\<forall>e. getEnclosingExpression_obj c = Inr (Some e) \<longrightarrow>
        (\<forall>ch \<in> set (childrenOf (objects c) node). (e, ch) \<notin> (below (objects c))\<^sup>*))"

text \<open>
  The states the cursor reaches from a new cursor on a well-formed store: by the host
  constructing a node, and by the ten operations, each under its precondition, with
  \<open>admitted\<close> saying which nodes \<^verbatim>\<open>insertNodeAtCursor\<close> is given.
\<close>

inductive reach :: "(ObjectCursor \<Rightarrow> nat \<Rightarrow> bool) \<Rightarrow> ObjectCursor \<Rightarrow> bool"
  for admitted :: "ObjectCursor \<Rightarrow> nat \<Rightarrow> bool" where
  initial: "wellFormed s \<Longrightarrow> r < expressionCount s \<Longrightarrow> reach admitted (newCursor_obj s r)"
| construct: "reach admitted c \<Longrightarrow> reach admitted (construct fresh k c)"
| enterNode:
    "reach admitted c \<Longrightarrow> getEnclosingExpression_obj c = Inr (Some e) \<Longrightarrow>
     nth_js (nodesOf (objects c) e) ni = Some n \<Longrightarrow>
     nth_js (childrenOf (objects c) n) ci = Some ch \<Longrightarrow>
     reach admitted (snd (enterNode_obj ni ci dir c))"
| leaveNode: "reach admitted c \<Longrightarrow> \<not> atRoot_obj c \<Longrightarrow> reach admitted (snd (leaveNode_obj dir c))"
| removeEnclosingNode:
    "reach admitted c \<Longrightarrow> \<not> atRoot_obj c \<Longrightarrow> reach admitted (snd (removeEnclosingNode_obj c))"
| deleteCharacterAtCursor:
    "reach admitted c \<Longrightarrow> cursorIndex_obj c > 0 \<Longrightarrow>
     reach admitted (snd (deleteCharacterAtCursor_obj c))"
| moveRight: "reach admitted c \<Longrightarrow> reach admitted (snd (moveRight_obj c))"
| moveLeft: "reach admitted c \<Longrightarrow> reach admitted (snd (moveLeft_obj c))"
| moveUp: "reach admitted c \<Longrightarrow> reach admitted (snd (moveUp_obj c))"
| moveDown: "reach admitted c \<Longrightarrow> reach admitted (snd (moveDown_obj c))"
| insertCharacterAtCursor:
    "reach admitted c \<Longrightarrow> reach admitted (snd (insertCharacterAtCursor_obj character fresh c))"
| insertNodeAtCursor:
    "reach admitted c \<Longrightarrow> admitted c node \<Longrightarrow>
     reach admitted (snd (insertNodeAtCursor_obj node c))"
| onUpdate:
    "reach admitted c \<Longrightarrow>
     reach admitted (c\<lparr>onUpdateCallbacks_obj := onUpdateCallbacks_obj c @ [cb]\<rparr>)"

text \<open>
  Auxiliary notions for the proofs: the expression object a list of links leads to, the
  loop of \<^verbatim>\<open>resolveLinkInfo\<close> as a recursion on the links it walks, and the invariant.
\<close>

primrec resolvePath_obj :: "ObjectStore \<Rightarrow> CursorPathLink list \<Rightarrow> nat \<Rightarrow> nat option" where
  "resolvePath_obj s [] e = Some e"
| "resolvePath_obj s (l # ls) e =
     (case nth_js (nodesOf s e) (nodeIndex l) of
        None \<Rightarrow> None
      | Some n \<Rightarrow>
         (case nth_js (childrenOf s n) (childIndex l) of
            None \<Rightarrow> None
          | Some ch \<Rightarrow> resolvePath_obj s ls ch))"

primrec resolveInfo_obj ::
  "ObjectStore \<Rightarrow> CursorPathLink list \<Rightarrow> nat option \<Rightarrow> nat option \<Rightarrow> error + ObjectInfo" where
  "resolveInfo_obj s [] ce cn = Inr \<lparr>enclosingExpression_obj = ce, enclosingNode_obj = cn\<rparr>"
| "resolveInfo_obj s (l # ls) ce cn =
     (case ce of
        None \<Rightarrow> Inl TypeError
      | Some e \<Rightarrow>
         (case nth_js (nodesOf s e) (nodeIndex l) of
            None \<Rightarrow> Inl TypeError
          | Some n \<Rightarrow> resolveInfo_obj s ls (nth_js (childrenOf s n) (childIndex l)) (Some n)))"

definition cursor_inv_obj :: "ObjectCursor \<Rightarrow> bool" where
  "cursor_inv_obj c \<longleftrightarrow>
     wellFormed (objects c) \<and> root_obj c < expressionCount (objects c) \<and>
     indexed (path_obj c) \<and>
     (case resolvePath_obj (objects c) (path_obj c) (root_obj c) of
        None \<Rightarrow> False
      | Some e \<Rightarrow>
          0 \<le> cursorIndex_obj c \<and> cursorIndex_obj c \<le> int (length (nodesOf (objects c) e)))"

subsection \<open>Example states on the store\<close>

text \<open>
  A store with one empty expression, the root. \<open>selfInserted\<close>: the host constructs a
  fraction, inserts it, moves into its numerator, inserts the same fraction object there,
  moves into the numerator of that, and types a character. \<open>sharedBracket\<close>: the host
  constructs a bracket, inserts it twice, one after the other, moves into the child of the
  second and types a character.
\<close>

definition emptyDocument :: ObjectStore where
  "emptyDocument =
     \<lparr>nodesOf = (\<lambda>e. []), childrenOf = (\<lambda>n. []), kindOf = (\<lambda>n. MathCharacter []),
      idOf = (\<lambda>n. []), expressionCount = 1, nodeCount = 0\<rparr>"

definition fractionMade :: ObjectCursor where
  "fractionMade = construct ''f'' Fraction (newCursor_obj emptyDocument 0)"

definition fractionPlaced :: ObjectCursor where
  "fractionPlaced = snd (insertNodeAtCursor_obj 0 fractionMade)"

definition insideFraction :: ObjectCursor where
  "insideFraction = snd (enterNode_obj 0 0 Right fractionPlaced)"

definition fractionInItself :: ObjectCursor where
  "fractionInItself = snd (insertNodeAtCursor_obj 0 insideFraction)"

definition insideTwice :: ObjectCursor where
  "insideTwice = snd (enterNode_obj 0 0 Right fractionInItself)"

definition selfInserted :: ObjectCursor where
  "selfInserted = snd (insertCharacterAtCursor_obj ''x'' ''x1'' insideTwice)"

definition bracketMade :: ObjectCursor where
  "bracketMade = construct ''b'' (Bracket ''('' '')'') (newCursor_obj emptyDocument 0)"

definition bracketPlaced :: ObjectCursor where
  "bracketPlaced = snd (insertNodeAtCursor_obj 0 bracketMade)"

definition bracketTwice :: ObjectCursor where
  "bracketTwice = snd (insertNodeAtCursor_obj 0 bracketPlaced)"

definition insideSecond :: ObjectCursor where
  "insideSecond = snd (enterNode_obj 1 0 Right bracketTwice)"

definition sharedBracket :: ObjectCursor where
  "sharedBracket = snd (insertCharacterAtCursor_obj ''x'' ''x1'' insideSecond)"

section \<open>Properties\<close>

subsection \<open>Resolving paths\<close>

lemma nth_js_Some_iff: "nth_js xs i = Some x \<longleftrightarrow> 0 \<le> i \<and> i < int (length xs) \<and> xs ! nat i = x"
  by (auto simp: nth_js_def)

lemma nth_js_None_iff: "nth_js xs i = None \<longleftrightarrow> i < 0 \<or> int (length xs) \<le> i"
  by (auto simp: nth_js_def)

lemma resolveLoop_resolveInfo:
  "0 \<le> i \<Longrightarrow> i \<le> link_i link + 1 \<Longrightarrow> link_i link < int (length (loc_path loc)) \<Longrightarrow>
   resolveLoop loc link i ce cn =
     resolveInfo (drop (nat i) (take (nat (link_i link + 1)) (loc_path loc))) ce cn"
proof (induction loc link i ce cn rule: resolveLoop.induct)
  case (1 loc link i ce cn)
  show ?case
  proof (cases "i \<le> link_i link")
    case False
    with 1(3) have "i = link_i link + 1" by simp
    then show ?thesis using False by (simp add: resolveLoop.simps[of loc link i])
  next
    case True
    let ?p = "loc_path loc"
    have len: "nat i < length (take (nat (link_i link + 1)) ?p)" using True 1(2,4) by simp
    have dr: "drop (nat i) (take (nat (link_i link + 1)) ?p) =
        ?p ! nat i # drop (nat (i + 1)) (take (nat (link_i link + 1)) ?p)"
      using len 1(2) True 1(4) by (simp add: Cons_nth_drop_Suc[symmetric] nat_add_distrib)
    have nj: "nth_js ?p i = Some (?p ! nat i)" using True 1(2,4) by (simp add: nth_js_def)
    show ?thesis
    proof (cases ce)
      case None
      then show ?thesis using True dr by (simp add: resolveLoop.simps[of loc link i])
    next
      case (Some e)
      show ?thesis
      proof (cases "nth_js (getNodes e) (nodeIndex (?p ! nat i))")
        case None
        then show ?thesis using True dr Some nj by (simp add: resolveLoop.simps[of loc link i])
      next
        case (Some n)
        have "resolveLoop loc link (i + 1) (nth_js (children n) (childIndex (?p ! nat i))) (Some n)
            = resolveInfo (drop (nat (i + 1)) (take (nat (link_i link + 1)) ?p))
                (nth_js (children n) (childIndex (?p ! nat i))) (Some n)"
          using 1(1)[OF True \<open>ce = Some e\<close> nj Some] True 1(2,4) by simp
        then show ?thesis using True dr \<open>ce = Some e\<close> nj Some
          by (simp add: resolveLoop.simps[of loc link i])
      qed
    qed
  qed
qed

declare resolveLoop.simps [simp del]

lemma resolveInfo_None: "ls \<noteq> [] \<Longrightarrow> resolveInfo ls None cn = Inl TypeError"
  by (cases ls) simp_all

lemma resolveInfo_snoc:
  "resolveInfo (q @ [l]) (Some e) cn =
     (case resolvePath q e of
        None \<Rightarrow> Inl TypeError
      | Some e1 \<Rightarrow>
         (case nth_js (getNodes e1) (nodeIndex l) of
            None \<Rightarrow> Inl TypeError
          | Some n \<Rightarrow>
              Inr \<lparr>enclosingExpression = nth_js (children n) (childIndex l),
                   enclosingNode = Some n\<rparr>))"
proof (induction q arbitrary: e cn)
  case Nil
  show ?case by (simp split: option.split)
next
  case (Cons a q)
  show ?case
  proof (cases "nth_js (getNodes e) (nodeIndex a)")
    case None
    then show ?thesis by simp
  next
    case (Some n)
    show ?thesis
    proof (cases "nth_js (children n) (childIndex a)")
      case None
      then show ?thesis using Some by (simp add: resolveInfo_None)
    next
      case (Some ch)
      then show ?thesis using \<open>nth_js (getNodes e) (nodeIndex a) = Some n\<close> Cons.IH by simp
    qed
  qed
qed

lemma resolvePath_append:
  "resolvePath (p @ q) e = (case resolvePath p e of None \<Rightarrow> None | Some e1 \<Rightarrow> resolvePath q e1)"
proof (induction p arbitrary: e)
  case Nil
  show ?case by simp
next
  case (Cons a p)
  show ?case by (simp add: Cons.IH split: option.split)
qed

lemma indexed_last: "indexed p \<Longrightarrow> p \<noteq> [] \<Longrightarrow> link_i (last p) = int (length p) - 1"
  by (cases p rule: rev_cases) (auto simp: indexed_def nth_append)

lemma indexed_butlast: "indexed p \<Longrightarrow> indexed (butlast p)"
  by (auto simp: indexed_def nth_butlast)

lemma indexed_snoc:
  "indexed p \<Longrightarrow> indexed (p @ [\<lparr>nodeIndex = ni, childIndex = ci, link_i = int (length p)\<rparr>])"
  by (auto simp: indexed_def nth_append)

lemma resolveLinkInfo_last:
  assumes "indexed (loc_path loc)" "loc_path loc \<noteq> []"
  shows "resolveLinkInfo loc (last (loc_path loc)) = resolveInfo (loc_path loc) (Some (loc_root loc)) None"
proof -
  have li: "link_i (last (loc_path loc)) = int (length (loc_path loc)) - 1"
    using assms by (rule indexed_last)
  have "resolveLoop loc (last (loc_path loc)) 0 (Some (loc_root loc)) None =
      resolveInfo (drop (nat 0) (take (nat (link_i (last (loc_path loc)) + 1)) (loc_path loc)))
        (Some (loc_root loc)) None"
    by (rule resolveLoop_resolveInfo) (use li assms(2) in simp_all)
  then show ?thesis by (simp add: resolveLinkInfo_def li)
qed

lemma enclosingLinks_indexed: "indexed (loc_path loc) \<Longrightarrow> enclosingLinks loc = loc_path loc"
  by (auto simp: enclosingLinks_def atRoot_def indexed_last)

lemma resolveLinkInfo_top:
  assumes "indexed (loc_path loc)" "loc_path loc \<noteq> []"
  shows "resolveLinkInfo loc (last (loc_path loc)) =
     (case resolvePath (butlast (loc_path loc)) (loc_root loc) of
        None \<Rightarrow> Inl TypeError
      | Some e1 \<Rightarrow>
         (case nth_js (getNodes e1) (nodeIndex (last (loc_path loc))) of
            None \<Rightarrow> Inl TypeError
          | Some n \<Rightarrow>
              Inr \<lparr>enclosingExpression = nth_js (children n) (childIndex (last (loc_path loc))),
                   enclosingNode = Some n\<rparr>))"
proof -
  have "loc_path loc = butlast (loc_path loc) @ [last (loc_path loc)]" using assms(2) by simp
  then have "resolveInfo (loc_path loc) (Some (loc_root loc)) None =
     resolveInfo (butlast (loc_path loc) @ [last (loc_path loc)]) (Some (loc_root loc)) None"
    by simp
  then show ?thesis
    unfolding resolveLinkInfo_last[OF assms] resolveInfo_snoc .
qed

lemma resolvePath_snoc:
  "resolvePath (q @ [l]) e =
     (case resolvePath q e of
        None \<Rightarrow> None
      | Some e1 \<Rightarrow>
         (case nth_js (getNodes e1) (nodeIndex l) of
            None \<Rightarrow> None
          | Some n \<Rightarrow> nth_js (children n) (childIndex l)))"
  by (simp add: resolvePath_append split: option.split)

lemma getEnclosingExpression_iff:
  assumes "indexed (loc_path loc)"
  shows "getEnclosingExpression loc = Inr (Some e) \<longleftrightarrow> resolvePath (loc_path loc) (loc_root loc) = Some e"
proof (cases "loc_path loc = []")
  case True
  then show ?thesis by (auto simp: getEnclosingExpression_def atRoot_def)
next
  case False
  then have eq: "loc_path loc = butlast (loc_path loc) @ [last (loc_path loc)]" by simp
  have "resolvePath (loc_path loc) (loc_root loc) =
      resolvePath (butlast (loc_path loc) @ [last (loc_path loc)]) (loc_root loc)"
    using eq by simp
  then show ?thesis
    using False
    unfolding resolvePath_snoc getEnclosingExpression_def atRoot_def resolveLinkInfo_top[OF assms False]
    by (simp split: option.split)
qed

lemma nth_js_update_eq:
  "nth_js xs i = Some x \<Longrightarrow> nth_js (xs[nat i := y]) i = Some y"
  by (simp add: nth_js_def split: if_splits)

lemma resolvePath_replaceAt:
  "resolvePath p e = Some x \<Longrightarrow> resolvePath p (replaceAt p new e) = Some new"
proof (induction p arbitrary: e)
  case Nil
  show ?case by simp
next
  case (Cons l ls)
  from Cons.prems obtain n ch where
    n: "nth_js (getNodes e) (nodeIndex l) = Some n" and
    ch: "nth_js (children n) (childIndex l) = Some ch" and
    r: "resolvePath ls ch = Some x"
    by (auto split: option.splits)
  show ?case using n ch Cons.IH[OF r]
    by (simp add: nth_js_update_eq)
qed

subsection \<open>The invariant, entering and leaving\<close>

lemma cursor_invI:
  "indexed (path c) \<Longrightarrow> resolvePath (path c) (root c) = Some e \<Longrightarrow> 0 \<le> cursorIndex c \<Longrightarrow>
   cursorIndex c \<le> int (length (getNodes e)) \<Longrightarrow> cursor_inv c"
  by (simp add: cursor_inv_def)

lemma cursor_invE:
  assumes "cursor_inv c"
  obtains e where "indexed (path c)" "resolvePath (path c) (root c) = Some e"
    "0 \<le> cursorIndex c" "cursorIndex c \<le> int (length (getNodes e))"
  using assms by (auto simp: cursor_inv_def split: option.splits)

lemma notifyUpdates_simps [simp]:
  "location (notifyUpdates c) = location c"
  "cursorIndex (notifyUpdates c) = cursorIndex c"
  "path (notifyUpdates c) = path c"
  "root (notifyUpdates c) = root c"
  "focused (notifyUpdates c) = focused c"
  "blinkState (notifyUpdates c) = blinkState c"
  "onUpdateCallbacks (notifyUpdates c) = onUpdateCallbacks c"
  "observe (notifyUpdates c) = observe c"
  "invoked (notifyUpdates c) = invoked c @ map (\<lambda>cb. (cb, observe c)) (onUpdateCallbacks c)"
  by (simp_all add: notifyUpdates_def invokeAll_def path_def root_def observe_def)

lemma cursor_inv_notifyUpdates [simp]: "cursor_inv (notifyUpdates c) = cursor_inv c"
  by (simp add: cursor_inv_def split: option.split)

lemma getEnclosing_inv:
  "indexed (path c) \<Longrightarrow> resolvePath (path c) (root c) = Some e \<Longrightarrow>
   getEnclosingExpression (location c) = Inr (Some e)"
  by (simp add: getEnclosingExpression_iff path_def root_def)

lemma enterNode_ok:
  assumes "indexed (path c)" "resolvePath (path c) (root c) = Some e"
    and n: "nth_js (getNodes e) ni = Some n" and ch: "nth_js (children n) ci = Some ch"
  shows "enterNode ni ci dir c =
     (Inr (), notifyUpdates (c\<lparr>location := moveInto ni ci (location c),
        cursorIndex := (if dir = Right then 0 else int (length (getNodes ch)))\<rparr>))"
proof -
  let ?c1 = "c\<lparr>location := moveInto ni ci (location c)\<rparr>"
  have p1: "path ?c1 = path c @ [\<lparr>nodeIndex = ni, childIndex = ci, link_i = int (length (path c))\<rparr>]"
    by (simp add: path_def moveInto_def)
  have r1: "root ?c1 = root c" by (simp add: root_def moveInto_def)
  have "indexed (path ?c1)" unfolding p1 using assms(1) by (rule indexed_snoc)
  moreover have "resolvePath (path ?c1) (root ?c1) = Some ch"
    unfolding p1 r1 resolvePath_snoc using assms(2) n ch by simp
  ultimately have "getEnclosingExpression (location ?c1) = Inr (Some ch)"
    by (rule getEnclosing_inv)
  then show ?thesis
    by (simp add: enterNode_def Let_def)
qed

lemma enterNode_inv:
  assumes "cursor_inv c" "resolvePath (path c) (root c) = Some e"
    and n: "nth_js (getNodes e) ni = Some n" and ch: "nth_js (children n) ci = Some ch"
  shows "cursor_inv (snd (enterNode ni ci dir c))"
proof -
  have ix: "indexed (path c)" using assms(1) by (simp add: cursor_inv_def)
  let ?l = "\<lparr>nodeIndex = ni, childIndex = ci, link_i = int (length (path c))\<rparr>"
  let ?c2 = "c\<lparr>location := moveInto ni ci (location c),
        cursorIndex := (if dir = Right then 0 else int (length (getNodes ch)))\<rparr>"
  have p2: "path ?c2 = path c @ [?l]" by (simp add: path_def moveInto_def)
  have r2: "root ?c2 = root c" by (simp add: root_def moveInto_def)
  have "cursor_inv ?c2"
  proof (rule cursor_invI)
    show "indexed (path ?c2)" unfolding p2 using ix by (rule indexed_snoc)
    show "resolvePath (path ?c2) (root ?c2) = Some ch"
      unfolding p2 r2 resolvePath_snoc using assms(2) n ch by simp
  qed simp_all
  then show ?thesis
    unfolding enterNode_ok[OF ix assms(2) n ch] by simp
qed

lemma resolvePath_butlast:
  assumes "resolvePath p r = Some e" "p \<noteq> []"
  obtains e1 n where "resolvePath (butlast p) r = Some e1"
    "nth_js (getNodes e1) (nodeIndex (last p)) = Some n"
    "nth_js (children n) (childIndex (last p)) = Some e"
proof -
  have "resolvePath (butlast p @ [last p]) r = Some e" using assms by simp
  then show ?thesis
    unfolding resolvePath_snoc using that by (auto split: option.splits)
qed

lemma leaveNode_ok:
  "path c \<noteq> [] \<Longrightarrow> leaveNode dir c =
     (Inr (last (path c)),
      notifyUpdates (c\<lparr>location := (location c)\<lparr>loc_path := butlast (path c)\<rparr>,
        cursorIndex := (if dir = Left then nodeIndex (last (path c))
                        else nodeIndex (last (path c)) + 1)\<rparr>))"
  by (simp add: leaveNode_def pop_def atRoot_def path_def)

lemma leaveNode_inv:
  assumes "cursor_inv c" "path c \<noteq> []"
  shows "cursor_inv (snd (leaveNode dir c))"
proof -
  from assms(1) obtain e where ix: "indexed (path c)" and r: "resolvePath (path c) (root c) = Some e"
    by (rule cursor_invE)
  from r assms(2) obtain e1 n where e1: "resolvePath (butlast (path c)) (root c) = Some e1"
    and n: "nth_js (getNodes e1) (nodeIndex (last (path c))) = Some n"
    by (rule resolvePath_butlast)
  let ?c2 = "c\<lparr>location := (location c)\<lparr>loc_path := butlast (path c)\<rparr>,
        cursorIndex := (if dir = Left then nodeIndex (last (path c))
                        else nodeIndex (last (path c)) + 1)\<rparr>"
  have "cursor_inv ?c2"
  proof (rule cursor_invI)
    show "indexed (path ?c2)" using ix by (simp add: path_def indexed_butlast)
    show "resolvePath (path ?c2) (root ?c2) = Some e1" using e1 by (simp add: path_def root_def)
    show "0 \<le> cursorIndex ?c2" using n by (simp add: nth_js_Some_iff)
    show "cursorIndex ?c2 \<le> int (length (getNodes e1))" using n by (simp add: nth_js_Some_iff)
  qed
  then show ?thesis unfolding leaveNode_ok[OF assms(2)] by simp
qed

subsection \<open>Splicing, inserting and deleting\<close>

lemma splice_insert:
  "0 \<le> k \<Longrightarrow> array_splice k 0 [x] xs = take (nat k) xs @ [x] @ drop (nat k) xs"
  by (cases "nat k \<le> length xs") (simp_all add: array_splice_def spliceStart_def min_def Let_def)

lemma length_splice_insert: "length (array_splice k 0 [x] xs) = Suc (length xs)"
  by (simp add: array_splice_def spliceStart_def Let_def)

lemma splice_remove:
  "0 \<le> k \<Longrightarrow> k < int (length xs) \<Longrightarrow> array_splice k (Suc 0) [] xs = take (nat k) xs @ drop (Suc (nat k)) xs"
  by (auto simp: array_splice_def spliceStart_def min_def Let_def)

lemma length_insertNode [simp]: "length (getNodes (insertNode k node e)) = Suc (length (getNodes e))"
  by (simp add: insertNode_def length_splice_insert)

lemma removeNthNode_ok:
  "0 \<le> k \<Longrightarrow> k < int (length (getNodes e)) \<Longrightarrow>
   removeNthNode k e = Inr (MathExpression (take (nat k) (getNodes e) @ drop (Suc (nat k)) (getNodes e)))"
  by (simp add: removeNthNode_def splice_remove)

lemma removeNthNode_out: "k < 0 \<or> int (length (getNodes e)) \<le> k \<Longrightarrow> removeNthNode k e = Inl OutOfBounds"
  by (auto simp: removeNthNode_def)

lemma storeEnclosing_simps:
  assumes "indexed (path c)"
  shows "path (storeEnclosing e' c) = path c"
    and "root (storeEnclosing e' c) = replaceAt (path c) e' (root c)"
    and "cursorIndex (storeEnclosing e' c) = cursorIndex c"
    and "onUpdateCallbacks (storeEnclosing e' c) = onUpdateCallbacks c"
    and "invoked (storeEnclosing e' c) = invoked c"
    and "focused (storeEnclosing e' c) = focused c"
    and "blinkState (storeEnclosing e' c) = blinkState c"
  using assms by (simp_all add: storeEnclosing_def path_def root_def enclosingLinks_indexed)

lemma storeEnclosing_inv:
  assumes "indexed (path c)" "resolvePath (path c) (root c) = Some e"
    "0 \<le> k" "k \<le> int (length (getNodes e'))"
  shows "cursor_inv ((storeEnclosing e' c)\<lparr>cursorIndex := k\<rparr>)"
proof (rule cursor_invI)
  let ?c = "(storeEnclosing e' c)\<lparr>cursorIndex := k\<rparr>"
  have p: "path ?c = path c" using storeEnclosing_simps(1)[OF assms(1)] by (simp add: path_def)
  have r: "root ?c = replaceAt (path c) e' (root c)"
    using storeEnclosing_simps(2)[OF assms(1)] by (simp add: root_def)
  show "indexed (path ?c)" using assms(1) p by simp
  show "resolvePath (path ?c) (root ?c) = Some e'"
    unfolding p r using assms(2) by (rule resolvePath_replaceAt)
  show "0 \<le> cursorIndex ?c" using assms(3) by simp
  show "cursorIndex ?c \<le> int (length (getNodes e'))" using assms(4) by simp
qed

lemma insertNodeAtCursor_ok:
  assumes "indexed (path c)" "resolvePath (path c) (root c) = Some e"
  shows "insertNodeAtCursor node c =
     (Inr (cursorIndex c),
      notifyUpdates ((storeEnclosing (insertNode (cursorIndex c) node e) c)
        \<lparr>cursorIndex := cursorIndex c + 1\<rparr>))"
  using getEnclosing_inv[OF assms] storeEnclosing_simps(3)[OF assms(1)]
  by (simp add: insertNodeAtCursor_def Let_def)

lemma insertCharacterAtCursor_ok:
  assumes "indexed (path c)" "resolvePath (path c) (root c) = Some e"
  shows "insertCharacterAtCursor ch fresh c =
     (Inr (),
      notifyUpdates ((storeEnclosing (insertNode (cursorIndex c) (newNode fresh (MathCharacter ch)) e) c)
        \<lparr>cursorIndex := cursorIndex c + 1\<rparr>))"
  using getEnclosing_inv[OF assms] storeEnclosing_simps(3)[OF assms(1)]
  by (simp add: insertCharacterAtCursor_def Let_def)

lemma insertNodeAtCursor_inv:
  assumes "cursor_inv c"
  shows "cursor_inv (snd (insertNodeAtCursor node c))"
proof -
  from assms obtain e where ix: "indexed (path c)" and r: "resolvePath (path c) (root c) = Some e"
    and b: "0 \<le> cursorIndex c" "cursorIndex c \<le> int (length (getNodes e))"
    by (rule cursor_invE)
  have "cursor_inv ((storeEnclosing (insertNode (cursorIndex c) node e) c)
        \<lparr>cursorIndex := cursorIndex c + 1\<rparr>)"
    by (rule storeEnclosing_inv[OF ix r]) (use b in simp_all)
  then show ?thesis unfolding insertNodeAtCursor_ok[OF ix r] by simp
qed

lemma insertCharacterAtCursor_inv:
  assumes "cursor_inv c"
  shows "cursor_inv (snd (insertCharacterAtCursor ch fresh c))"
proof -
  from assms obtain e where ix: "indexed (path c)" and r: "resolvePath (path c) (root c) = Some e"
    and b: "0 \<le> cursorIndex c" "cursorIndex c \<le> int (length (getNodes e))"
    by (rule cursor_invE)
  have "cursor_inv ((storeEnclosing (insertNode (cursorIndex c) (newNode fresh (MathCharacter ch)) e) c)
        \<lparr>cursorIndex := cursorIndex c + 1\<rparr>)"
    by (rule storeEnclosing_inv[OF ix r]) (use b in simp_all)
  then show ?thesis unfolding insertCharacterAtCursor_ok[OF ix r] by simp
qed

lemma deleteCharacterAtCursor_ok:
  assumes "indexed (path c)" "resolvePath (path c) (root c) = Some e"
    "0 < cursorIndex c" "cursorIndex c \<le> int (length (getNodes e))"
  shows "deleteCharacterAtCursor c =
     (Inr (),
      notifyUpdates ((storeEnclosing
          (MathExpression (take (nat (cursorIndex c - 1)) (getNodes e) @
                           drop (Suc (nat (cursorIndex c - 1))) (getNodes e))) c)
        \<lparr>cursorIndex := cursorIndex c - 1\<rparr>))"
proof -
  have "removeNthNode (cursorIndex c - 1) e =
      Inr (MathExpression (take (nat (cursorIndex c - 1)) (getNodes e) @
                           drop (Suc (nat (cursorIndex c - 1))) (getNodes e)))"
    by (rule removeNthNode_ok) (use assms(3,4) in simp_all)
  then show ?thesis
    using getEnclosing_inv[OF assms(1,2)] storeEnclosing_simps(3)[OF assms(1)]
    by (simp add: deleteCharacterAtCursor_def Let_def)
qed

lemma deleteCharacterAtCursor_zero:
  assumes "cursorIndex c = 0"
  shows "\<exists>err. deleteCharacterAtCursor c = (Inl err, c)"
proof (cases "getEnclosingExpression (location c)")
  case (Inl err)
  then show ?thesis by (simp add: deleteCharacterAtCursor_def)
next
  case (Inr eo)
  show ?thesis
  proof (cases eo)
    case None
    then show ?thesis using Inr by (simp add: deleteCharacterAtCursor_def)
  next
    case (Some e)
    have "removeNthNode (cursorIndex c - 1) e = Inl OutOfBounds"
      by (rule removeNthNode_out) (use assms in simp)
    then show ?thesis using Inr Some by (simp add: deleteCharacterAtCursor_def)
  qed
qed

lemma deleteCharacterAtCursor_inv:
  assumes "cursor_inv c"
  shows "cursor_inv (snd (deleteCharacterAtCursor c))"
proof -
  from assms obtain e where ix: "indexed (path c)" and r: "resolvePath (path c) (root c) = Some e"
    and b: "0 \<le> cursorIndex c" "cursorIndex c \<le> int (length (getNodes e))"
    by (rule cursor_invE)
  show ?thesis
  proof (cases "cursorIndex c = 0")
    case True
    from deleteCharacterAtCursor_zero[OF True] assms show ?thesis by auto
  next
    case False
    then have pos: "0 < cursorIndex c" using b by simp
    have "cursor_inv ((storeEnclosing
          (MathExpression (take (nat (cursorIndex c - 1)) (getNodes e) @
                           drop (Suc (nat (cursorIndex c - 1))) (getNodes e))) c)
        \<lparr>cursorIndex := cursorIndex c - 1\<rparr>)"
      by (rule storeEnclosing_inv[OF ix r]) (use b pos in auto)
    then show ?thesis unfolding deleteCharacterAtCursor_ok[OF ix r pos b(2)] by simp
  qed
qed

subsection \<open>Removing the enclosing node; the horizontal moves\<close>

lemma andThen_simps [simp]:
  "andThen (Inl err, c) f = (Inl err, c)"
  "andThen (Inr v, c) f = f v c"
  by (simp_all add: andThen_def)

lemma removeEnclosingNode_root: "path c = [] \<Longrightarrow> removeEnclosingNode c = (Inl NoEnclosingNode, c)"
  by (simp add: removeEnclosingNode_def atRoot_def path_def)

lemma removeEnclosingNode_ok:
  assumes ix: "indexed (path c)" and ne: "path c \<noteq> []"
    and e1: "resolvePath (butlast (path c)) (root c) = Some e1"
    and n: "nth_js (getNodes e1) (nodeIndex (last (path c))) = Some n"
  shows "removeEnclosingNode c =
     (Inr (),
      notifyUpdates ((storeEnclosing
          (MathExpression (take (nat (nodeIndex (last (path c)))) (getNodes e1) @
                           drop (Suc (nat (nodeIndex (last (path c))))) (getNodes e1)))
          (c\<lparr>location := (location c)\<lparr>loc_path := butlast (path c)\<rparr>\<rparr>))
        \<lparr>cursorIndex := nodeIndex (last (path c))\<rparr>))"
proof -
  let ?c1 = "c\<lparr>location := (location c)\<lparr>loc_path := butlast (path c)\<rparr>\<rparr>"
  have ix1: "indexed (path ?c1)" using ix by (simp add: path_def indexed_butlast)
  have r1: "resolvePath (path ?c1) (root ?c1) = Some e1" using e1 by (simp add: path_def root_def)
  have g: "getEnclosingExpression (location ?c1) = Inr (Some e1)"
    using ix1 r1 by (rule getEnclosing_inv)
  have rm: "removeNthNode (nodeIndex (last (path c))) e1 =
      Inr (MathExpression (take (nat (nodeIndex (last (path c)))) (getNodes e1) @
                           drop (Suc (nat (nodeIndex (last (path c))))) (getNodes e1)))"
    by (rule removeNthNode_ok) (use n in \<open>simp_all add: nth_js_Some_iff\<close>)
  have p: "pop (location c) = Inr (last (path c), (location c)\<lparr>loc_path := butlast (path c)\<rparr>)"
    using ne by (simp add: pop_def atRoot_def path_def)
  have g': "getEnclosingExpression ((location c)\<lparr>loc_path := butlast (path c)\<rparr>) = Inr (Some e1)"
    using g by simp
  show ?thesis
    using ne by (simp add: removeEnclosingNode_def atRoot_def p g' rm Let_def path_def[symmetric])
qed

lemma removeEnclosingNode_inv:
  assumes "cursor_inv c" "path c \<noteq> []"
  shows "cursor_inv (snd (removeEnclosingNode c))"
proof -
  from assms(1) obtain e where ix: "indexed (path c)" and r: "resolvePath (path c) (root c) = Some e"
    by (rule cursor_invE)
  from r assms(2) obtain e1 n where e1: "resolvePath (butlast (path c)) (root c) = Some e1"
    and n: "nth_js (getNodes e1) (nodeIndex (last (path c))) = Some n"
    by (rule resolvePath_butlast)
  let ?c1 = "c\<lparr>location := (location c)\<lparr>loc_path := butlast (path c)\<rparr>\<rparr>"
  have ix1: "indexed (path ?c1)" using ix by (simp add: path_def indexed_butlast)
  have r1: "resolvePath (path ?c1) (root ?c1) = Some e1" using e1 by (simp add: path_def root_def)
  have "cursor_inv ((storeEnclosing
          (MathExpression (take (nat (nodeIndex (last (path c)))) (getNodes e1) @
                           drop (Suc (nat (nodeIndex (last (path c))))) (getNodes e1))) ?c1)
        \<lparr>cursorIndex := nodeIndex (last (path c))\<rparr>)"
    by (rule storeEnclosing_inv[OF ix1 r1]) (use n in \<open>auto simp: nth_js_Some_iff\<close>)
  then show ?thesis unfolding removeEnclosingNode_ok[OF ix assms(2) e1 n] by simp
qed

lemma moveRight_ok:
  assumes ix: "indexed (path c)" and r: "resolvePath (path c) (root c) = Some e"
    and b: "0 \<le> cursorIndex c" "cursorIndex c \<le> int (length (getNodes e))"
  shows "moveRight c =
    (Inr (),
     notifyUpdates
      (if cursorIndex c = int (length (getNodes e)) then
         (if path c \<noteq> [] then snd (leaveNode Right c) else c)
       else if children (getNodes e ! nat (cursorIndex c)) \<noteq> []
         then snd (enterNode (cursorIndex c) 0 Right c)
         else c\<lparr>cursorIndex := cursorIndex c + 1\<rparr>))"
proof -
  have g: "getEnclosingExpression (location c) = Inr (Some e)" using ix r by (rule getEnclosing_inv)
  show ?thesis
  proof (cases "cursorIndex c = int (length (getNodes e))")
    case True
    then show ?thesis
      by (cases "path c = []")
         (simp_all add: moveRight_def g atRoot_def path_def[symmetric] leaveNode_ok)
  next
    case False
    then have nj: "nth_js (getNodes e) (cursorIndex c) = Some (getNodes e ! nat (cursorIndex c))"
      using b by (simp add: nth_js_def)
    show ?thesis
    proof (cases "children (getNodes e ! nat (cursorIndex c)) = []")
      case True
      then show ?thesis using False by (simp add: moveRight_def g nj)
    next
      case nonempty: False
      then have "nth_js (children (getNodes e ! nat (cursorIndex c))) 0 =
          Some (children (getNodes e ! nat (cursorIndex c)) ! 0)"
        by (simp add: nth_js_def)
      from enterNode_ok[OF ix r nj this, of Right] show ?thesis
        using False nonempty by (simp add: moveRight_def g nj)
    qed
  qed
qed

lemma moveLeft_ok:
  assumes ix: "indexed (path c)" and r: "resolvePath (path c) (root c) = Some e"
    and b: "0 \<le> cursorIndex c" "cursorIndex c \<le> int (length (getNodes e))"
  shows "moveLeft c =
    (Inr (),
     notifyUpdates
      (if cursorIndex c = 0 then
         (if path c \<noteq> [] then snd (leaveNode Left c) else c)
       else if children (getNodes e ! nat (cursorIndex c - 1)) \<noteq> []
         then snd (enterNode (cursorIndex c - 1) 0 Left c)
         else c\<lparr>cursorIndex := cursorIndex c - 1\<rparr>))"
proof -
  have g: "getEnclosingExpression (location c) = Inr (Some e)" using ix r by (rule getEnclosing_inv)
  show ?thesis
  proof (cases "cursorIndex c = 0")
    case True
    then show ?thesis
      by (cases "path c = []")
         (simp_all add: moveLeft_def g atRoot_def path_def[symmetric] leaveNode_ok)
  next
    case False
    then have nj: "nth_js (getNodes e) (cursorIndex c - 1) = Some (getNodes e ! nat (cursorIndex c - 1))"
      using b by (simp add: nth_js_def)
    show ?thesis
    proof (cases "children (getNodes e ! nat (cursorIndex c - 1)) = []")
      case True
      then show ?thesis using False by (simp add: moveLeft_def g nj)
    next
      case nonempty: False
      then have "nth_js (children (getNodes e ! nat (cursorIndex c - 1))) 0 =
          Some (children (getNodes e ! nat (cursorIndex c - 1)) ! 0)"
        by (simp add: nth_js_def)
      from enterNode_ok[OF ix r nj this, of Left] show ?thesis
        using False nonempty by (simp add: moveLeft_def g nj)
    qed
  qed
qed

lemma moveRight_inv:
  assumes "cursor_inv c"
  shows "cursor_inv (snd (moveRight c))"
proof -
  from assms obtain e where ix: "indexed (path c)" and r: "resolvePath (path c) (root c) = Some e"
    and b: "0 \<le> cursorIndex c" "cursorIndex c \<le> int (length (getNodes e))"
    by (rule cursor_invE)
  have 1: "path c \<noteq> [] \<Longrightarrow> cursor_inv (snd (leaveNode Right c))"
    using assms by (rule leaveNode_inv)
  have 2: "cursor_inv (snd (enterNode (cursorIndex c) 0 Right c))"
    if "cursorIndex c \<noteq> int (length (getNodes e))" "children (getNodes e ! nat (cursorIndex c)) \<noteq> []"
    by (rule enterNode_inv[OF assms r, where n = "getNodes e ! nat (cursorIndex c)"
          and ch = "children (getNodes e ! nat (cursorIndex c)) ! 0"])
       (use that b in \<open>simp_all add: nth_js_def\<close>)
  have 3: "cursor_inv (c\<lparr>cursorIndex := cursorIndex c + 1\<rparr>)"
    if "cursorIndex c \<noteq> int (length (getNodes e))"
    by (rule cursor_invI[where e = e]) (use that b ix r in \<open>simp_all add: path_def root_def\<close>)
  show ?thesis
    unfolding moveRight_ok[OF ix r b] using 1 2 3 assms by simp
qed

lemma moveLeft_inv:
  assumes "cursor_inv c"
  shows "cursor_inv (snd (moveLeft c))"
proof -
  from assms obtain e where ix: "indexed (path c)" and r: "resolvePath (path c) (root c) = Some e"
    and b: "0 \<le> cursorIndex c" "cursorIndex c \<le> int (length (getNodes e))"
    by (rule cursor_invE)
  have 1: "path c \<noteq> [] \<Longrightarrow> cursor_inv (snd (leaveNode Left c))"
    using assms by (rule leaveNode_inv)
  have 2: "cursor_inv (snd (enterNode (cursorIndex c - 1) 0 Left c))"
    if "cursorIndex c \<noteq> 0" "children (getNodes e ! nat (cursorIndex c - 1)) \<noteq> []"
    by (rule enterNode_inv[OF assms r, where n = "getNodes e ! nat (cursorIndex c - 1)"
          and ch = "children (getNodes e ! nat (cursorIndex c - 1)) ! 0"])
       (use that b in \<open>simp_all add: nth_js_def\<close>)
  have 3: "cursor_inv (c\<lparr>cursorIndex := cursorIndex c - 1\<rparr>)"
    if "cursorIndex c \<noteq> 0"
    by (rule cursor_invI[where e = e]) (use that b ix r in \<open>simp_all add: path_def root_def\<close>)
  show ?thesis
    unfolding moveLeft_ok[OF ix r b] using 1 2 3 assms by simp
qed

subsection \<open>The vertical moves\<close>

lemma moveDown_root: "path c = [] \<Longrightarrow> moveDown c = (Inr (), c)"
  by (simp add: moveDown_def atRoot_def path_def)

lemma moveUp_root: "path c = [] \<Longrightarrow> moveUp c = (Inr (), c)"
  by (simp add: moveUp_def atRoot_def path_def)

lemma vertical_prelude:
  assumes ix: "indexed (path c)" and ne: "path c \<noteq> []"
    and e1: "resolvePath (butlast (path c)) (root c) = Some e1"
    and n: "nth_js (getNodes e1) (nodeIndex (last (path c))) = Some n"
  shows "getTopLevelLink (location c) = Inr (last (path c))"
    and "resolveLinkInfo (location c) (last (path c)) =
           Inr \<lparr>enclosingExpression = nth_js (children n) (childIndex (last (path c))),
                enclosingNode = Some n\<rparr>"
proof -
  show "getTopLevelLink (location c) = Inr (last (path c))"
    using ne by (simp add: getTopLevelLink_def atRoot_def path_def)
  have "resolveLinkInfo (location c) (last (loc_path (location c))) =
     (case resolvePath (butlast (loc_path (location c))) (loc_root (location c)) of
        None \<Rightarrow> Inl TypeError
      | Some e1 \<Rightarrow>
         (case nth_js (getNodes e1) (nodeIndex (last (loc_path (location c)))) of
            None \<Rightarrow> Inl TypeError
          | Some n \<Rightarrow>
              Inr \<lparr>enclosingExpression = nth_js (children n) (childIndex (last (loc_path (location c)))),
                   enclosingNode = Some n\<rparr>))"
    by (rule resolveLinkInfo_top) (use ix ne in \<open>simp_all add: path_def\<close>)
  then show "resolveLinkInfo (location c) (last (path c)) =
           Inr \<lparr>enclosingExpression = nth_js (children n) (childIndex (last (path c))),
                enclosingNode = Some n\<rparr>"
    using e1 n by (simp add: path_def root_def)
qed

lemma moveDown_ok:
  assumes ix: "indexed (path c)" and ne: "path c \<noteq> []"
    and e1: "resolvePath (butlast (path c)) (root c) = Some e1"
    and n: "nth_js (getNodes e1) (nodeIndex (last (path c))) = Some n"
  shows "moveDown c =
     (if childIndex (last (path c)) < int (length (children n)) - 1
      then enterNode (nodeIndex (last (path c))) (childIndex (last (path c)) + 1) Left
             (snd (leaveNode Left c))
      else (Inr (), c))"
  using ne vertical_prelude[OF assms]
  by (simp add: moveDown_def atRoot_def path_def[symmetric] leaveNode_ok Let_def)

lemma moveUp_ok:
  assumes ix: "indexed (path c)" and ne: "path c \<noteq> []"
    and e1: "resolvePath (butlast (path c)) (root c) = Some e1"
    and n: "nth_js (getNodes e1) (nodeIndex (last (path c))) = Some n"
  shows "moveUp c =
     (if childIndex (last (path c)) > 0
      then enterNode (nodeIndex (last (path c))) (childIndex (last (path c)) - 1) Right
             (snd (leaveNode Left c))
      else (Inr (), c))"
  using ne vertical_prelude[OF assms]
  by (simp add: moveUp_def atRoot_def path_def[symmetric] leaveNode_ok Let_def)

lemma left_state:
  assumes ix: "indexed (path c)" and ne: "path c \<noteq> []"
    and e1: "resolvePath (butlast (path c)) (root c) = Some e1"
  shows "path (snd (leaveNode Left c)) = butlast (path c)"
    and "root (snd (leaveNode Left c)) = root c"
    and "indexed (path (snd (leaveNode Left c)))"
    and "resolvePath (path (snd (leaveNode Left c))) (root (snd (leaveNode Left c))) = Some e1"
  using assms by (simp_all add: leaveNode_ok path_def root_def indexed_butlast)

lemma moveDown_inv:
  assumes "cursor_inv c"
  shows "cursor_inv (snd (moveDown c))"
proof (cases "path c = []")
  case True
  then show ?thesis using assms by (simp add: moveDown_root)
next
  case False
  from assms obtain e where ix: "indexed (path c)" and r: "resolvePath (path c) (root c) = Some e"
    by (rule cursor_invE)
  from r False obtain e1 n where e1: "resolvePath (butlast (path c)) (root c) = Some e1"
    and n: "nth_js (getNodes e1) (nodeIndex (last (path c))) = Some n"
    and ch: "nth_js (children n) (childIndex (last (path c))) = Some e"
    by (rule resolvePath_butlast)
  show ?thesis
  proof (cases "childIndex (last (path c)) < int (length (children n)) - 1")
    case True
    have "cursor_inv (snd (enterNode (nodeIndex (last (path c))) (childIndex (last (path c)) + 1) Left
             (snd (leaveNode Left c))))"
    proof (rule enterNode_inv[where e = e1 and n = n
          and ch = "children n ! nat (childIndex (last (path c)) + 1)"])
      show "cursor_inv (snd (leaveNode Left c))" using assms False by (rule leaveNode_inv)
      show "resolvePath (path (snd (leaveNode Left c))) (root (snd (leaveNode Left c))) = Some e1"
        using ix False e1 by (rule left_state)
      show "nth_js (getNodes e1) (nodeIndex (last (path c))) = Some n" by (rule n)
      show "nth_js (children n) (childIndex (last (path c)) + 1) =
          Some (children n ! nat (childIndex (last (path c)) + 1))"
        using True ch by (simp add: nth_js_def split: if_splits)
    qed
    then show ?thesis unfolding moveDown_ok[OF ix False e1 n] using True by simp
  next
    case False
    then show ?thesis unfolding moveDown_ok[OF ix \<open>path c \<noteq> []\<close> e1 n] using assms by simp
  qed
qed

lemma moveUp_inv:
  assumes "cursor_inv c"
  shows "cursor_inv (snd (moveUp c))"
proof (cases "path c = []")
  case True
  then show ?thesis using assms by (simp add: moveUp_root)
next
  case False
  from assms obtain e where ix: "indexed (path c)" and r: "resolvePath (path c) (root c) = Some e"
    by (rule cursor_invE)
  from r False obtain e1 n where e1: "resolvePath (butlast (path c)) (root c) = Some e1"
    and n: "nth_js (getNodes e1) (nodeIndex (last (path c))) = Some n"
    and ch: "nth_js (children n) (childIndex (last (path c))) = Some e"
    by (rule resolvePath_butlast)
  show ?thesis
  proof (cases "childIndex (last (path c)) > 0")
    case True
    have "cursor_inv (snd (enterNode (nodeIndex (last (path c))) (childIndex (last (path c)) - 1) Right
             (snd (leaveNode Left c))))"
    proof (rule enterNode_inv[where e = e1 and n = n
          and ch = "children n ! nat (childIndex (last (path c)) - 1)"])
      show "cursor_inv (snd (leaveNode Left c))" using assms False by (rule leaveNode_inv)
      show "resolvePath (path (snd (leaveNode Left c))) (root (snd (leaveNode Left c))) = Some e1"
        using ix False e1 by (rule left_state)
      show "nth_js (getNodes e1) (nodeIndex (last (path c))) = Some n" by (rule n)
      show "nth_js (children n) (childIndex (last (path c)) - 1) =
          Some (children n ! nat (childIndex (last (path c)) - 1))"
        using True ch by (simp add: nth_js_def split: if_splits)
    qed
    then show ?thesis unfolding moveUp_ok[OF ix False e1 n] using True by simp
  next
    case False
    then show ?thesis unfolding moveUp_ok[OF ix \<open>path c \<noteq> []\<close> e1 n] using assms by simp
  qed
qed

subsection \<open>Reachable states satisfy the invariant\<close>

lemma cursor_inv_cong:
  "location c' = location c \<Longrightarrow> cursorIndex c' = cursorIndex c \<Longrightarrow> cursor_inv c' = cursor_inv c"
  by (simp add: cursor_inv_def path_def root_def split: option.split)

lemma cursor_inv_update [simp]:
  "cursor_inv (c\<lparr>lastBlinkInterrupt := t\<rparr>) = cursor_inv c"
  "cursor_inv (c\<lparr>blinkState := b\<rparr>) = cursor_inv c"
  "cursor_inv (c\<lparr>focused := b\<rparr>) = cursor_inv c"
  "cursor_inv (c\<lparr>searchMenuOpen := b\<rparr>) = cursor_inv c"
  "cursor_inv (c\<lparr>onUpdateCallbacks := cbs\<rparr>) = cursor_inv c"
  "cursor_inv (c\<lparr>onRequestFocusCallbacks := cbs\<rparr>) = cursor_inv c"
  "cursor_inv (c\<lparr>invoked := log\<rparr>) = cursor_inv c"
  by (simp_all add: cursor_inv_def path_def root_def split: option.split)

lemma cursor_inv_newCursor: "cursor_inv (newCursor r)"
  by (simp add: cursor_inv_def newCursor_def newCursorLocation_def path_def root_def indexed_def)

lemma insertAndEnter_inv:
  assumes "cursor_inv c" "children node \<noteq> []"
  shows "cursor_inv (snd (insertAndEnter node c))"
proof -
  from assms(1) obtain e where ix: "indexed (path c)" and r: "resolvePath (path c) (root c) = Some e"
    and b: "0 \<le> cursorIndex c" "cursorIndex c \<le> int (length (getNodes e))"
    by (rule cursor_invE)
  let ?e' = "insertNode (cursorIndex c) node e"
  let ?c1 = "notifyUpdates ((storeEnclosing ?e' c)\<lparr>cursorIndex := cursorIndex c + 1\<rparr>)"
  have inv1: "cursor_inv ?c1"
    using insertNodeAtCursor_inv[OF assms(1), of node] unfolding insertNodeAtCursor_ok[OF ix r] by simp
  have p1: "path ?c1 = path c" using storeEnclosing_simps(1)[OF ix] by (simp add: path_def)
  have r1: "root ?c1 = replaceAt (path c) ?e' (root c)"
    using storeEnclosing_simps(2)[OF ix] by (simp add: root_def)
  have res1: "resolvePath (path ?c1) (root ?c1) = Some ?e'"
    unfolding p1 r1 using r by (rule resolvePath_replaceAt)
  have nodes: "getNodes ?e' = take (nat (cursorIndex c)) (getNodes e) @ [node] @ drop (nat (cursorIndex c)) (getNodes e)"
    using b by (simp add: insertNode_def splice_insert)
  have nj: "nth_js (getNodes ?e') (cursorIndex c) = Some node"
    using b unfolding nodes by (simp add: nth_js_def nth_append)
  have cj: "nth_js (children node) 0 = Some (children node ! 0)"
    using assms(2) by (simp add: nth_js_def)
  have "cursor_inv (snd (enterNode (cursorIndex c) 0 Right ?c1))"
    using inv1 res1 nj cj by (rule enterNode_inv)
  then show ?thesis
    by (simp add: insertAndEnter_def insertNodeAtCursor_ok[OF ix r])
qed

lemma handleKeydown_inv:
  assumes "cursor_inv c"
  shows "cursor_inv (snd (handleKeydown key env c))"
proof -
  let ?c0 = "notifyUpdates (c\<lparr>lastBlinkInterrupt := now env, blinkState := True\<rparr>)"
  have inv0: "cursor_inv ?c0"
    using assms by simp
  have del: "cursor_inv (snd (if cursorIndex ?c0 = 0 then removeEnclosingNode ?c0 else deleteCharacterAtCursor ?c0))"
  proof (cases "cursorIndex ?c0 = 0")
    case True
    show ?thesis
    proof (cases "path ?c0 = []")
      case True
      then show ?thesis using inv0 \<open>cursorIndex ?c0 = 0\<close> by (simp add: removeEnclosingNode_root)
    next
      case False
      from removeEnclosingNode_inv[OF inv0 False] show ?thesis using True by simp
    qed
  next
    case False
    from deleteCharacterAtCursor_inv[OF inv0] show ?thesis using False by simp
  qed
  have menu: "cursor_inv (snd (andThen (getCursorElement env ?c0) (\<lambda>u c1. (Inr (), c1\<lparr>searchMenuOpen := True\<rparr>))))"
    using inv0 by (simp add: getCursorElement_def)
  have ie: "\<And>k. initialChildren k \<noteq> [] \<Longrightarrow> cursor_inv (snd (insertAndEnter (newNode (freshId env) k) ?c0))"
    by (rule insertAndEnter_inv[OF inv0]) (simp add: newNode_def)
  have branch: "\<And>b x y. cursor_inv (snd x) \<Longrightarrow> cursor_inv (snd y) \<Longrightarrow>
      cursor_inv (snd (if b then x else (y :: unit outcome)))"
    by simp
  have other: "cursor_inv (snd (Inr (), ?c0))" using inv0 by simp
  show ?thesis
    unfolding handleKeydown_def Let_def
    apply (rule branch, rule insertCharacterAtCursor_inv[OF inv0])
    apply (rule branch, rule insertCharacterAtCursor_inv[OF inv0])
    apply (rule branch, rule insertCharacterAtCursor_inv[OF inv0])
    apply (rule branch, rule insertCharacterAtCursor_inv[OF inv0])
    apply (rule branch, rule insertCharacterAtCursor_inv[OF inv0])
    apply (rule branch, rule insertCharacterAtCursor_inv[OF inv0])
    apply (rule branch, rule del)
    apply (rule branch, rule menu)
    apply (rule branch, rule ie, simp)
    apply (rule branch, rule ie, simp)
    apply (rule branch, rule ie, simp)
    apply (rule branch, rule ie, simp)
    apply (rule branch, rule ie, simp)
    apply (rule branch, rule ie, simp)
    apply (rule branch, rule moveRight_inv[OF inv0])
    apply (rule branch, rule moveLeft_inv[OF inv0])
    apply (rule branch, rule moveDown_inv[OF inv0])
    apply (rule branch, rule moveUp_inv[OF inv0])
    apply (rule other)
    done
qed

lemma reachable_inv: "reachable c \<Longrightarrow> cursor_inv c"
proof (induction rule: reachable.induct)
  case (initial r)
  show ?case by (rule cursor_inv_newCursor)
next
  case (enterNode c e ni n ci ch dir)
  have "resolvePath (path c) (root c) = Some e"
    using enterNode.IH enterNode.hyps(2) by (simp add: cursor_inv_def getEnclosingExpression_iff path_def root_def)
  then show ?case using enterNode by (auto intro: enterNode_inv)
next
  case (leaveNode c dir)
  then show ?case by (auto intro: leaveNode_inv simp: atRoot_def path_def)
next
  case (removeEnclosingNode c)
  then show ?case by (auto intro: removeEnclosingNode_inv simp: atRoot_def path_def)
next
  case (focus c t)
  then show ?case by (simp add: focus_def)
next
  case (blur c)
  then show ?case by (simp add: blur_def)
next
  case (blinkTick c t)
  then show ?case by (simp add: blinkTick_def)
next
  case (onUpdate c cb)
  then show ?case by (simp add: onUpdate_def)
next
  case (onFocusRequested c cb)
  then show ?case by (simp add: onFocusRequested_def)
qed (simp_all add: deleteCharacterAtCursor_inv moveRight_inv moveLeft_inv moveUp_inv moveDown_inv
      insertCharacterAtCursor_inv insertNodeAtCursor_inv handleKeydown_inv)

lemma indexed_take: "indexed p \<Longrightarrow> indexed (take k p)"
  by (simp add: indexed_def)

subsection \<open>The example states are reachable\<close>



lemma reachable_inNumerator: "reachable inNumerator"
  unfolding inNumerator_def
proof (rule reachable.enterNode)
  show "reachable (newCursor sampleRoot)" by (rule reachable.initial)
  show "getEnclosingExpression (location (newCursor sampleRoot)) = Inr (Some sampleRoot)"
    by code_simp
  show "nth_js (getNodes sampleRoot) 0 = Some (getNodes sampleRoot ! 0)" by code_simp
  show "nth_js (children (getNodes sampleRoot ! 0)) 0 = Some (children (getNodes sampleRoot ! 0) ! 0)"
    by code_simp
qed

lemma reachable_inDenominator: "reachable inDenominator"
  unfolding inDenominator_def
proof (rule reachable.enterNode)
  show "reachable (newCursor sampleRoot)" by (rule reachable.initial)
  show "getEnclosingExpression (location (newCursor sampleRoot)) = Inr (Some sampleRoot)"
    by code_simp
  show "nth_js (getNodes sampleRoot) 0 = Some (getNodes sampleRoot ! 0)" by code_simp
  show "nth_js (children (getNodes sampleRoot ! 0)) 1 = Some (children (getNodes sampleRoot ! 0) ! 1)"
    by code_simp
qed

subsection \<open>The states after the moves\<close>

lemma top_link_update:
  assumes "indexed p" "p \<noteq> []"
  shows "\<lparr>nodeIndex = nodeIndex (last p), childIndex = j, link_i = int (length (butlast p))\<rparr>
           = (last p)\<lparr>childIndex := j\<rparr>"
proof -
  have "int (length (butlast p)) = link_i (last p)"
    using indexed_last[OF assms] assms(2) by (simp add: of_nat_diff Suc_leI)
  then show ?thesis by simp
qed


lemma moveRight_leave:
  assumes ix: "indexed (path c)" and r: "resolvePath (path c) (root c) = Some e"
    and b: "0 \<le> cursorIndex c" "cursorIndex c \<le> int (length (getNodes e))"
    and "end": "cursorIndex c = int (length (getNodes e))" and ne: "path c \<noteq> []"
  shows "path (snd (moveRight c)) = butlast (path c)"
    and "cursorIndex (snd (moveRight c)) = nodeIndex (last (path c)) + 1"
    and "root (snd (moveRight c)) = root c"
  unfolding moveRight_ok[OF ix r b] using "end" ne
  by (simp_all add: leaveNode_ok path_def root_def)

lemma moveRight_enter:
  assumes ix: "indexed (path c)" and r: "resolvePath (path c) (root c) = Some e"
    and b: "0 \<le> cursorIndex c" "cursorIndex c \<le> int (length (getNodes e))"
    and inner: "cursorIndex c \<noteq> int (length (getNodes e))"
    and kids: "children (getNodes e ! nat (cursorIndex c)) \<noteq> []"
  shows "path (snd (moveRight c)) =
           path c @ [\<lparr>nodeIndex = cursorIndex c, childIndex = 0, link_i = int (length (path c))\<rparr>]"
    and "cursorIndex (snd (moveRight c)) = 0"
    and "root (snd (moveRight c)) = root c"
proof -
  have nj: "nth_js (getNodes e) (cursorIndex c) = Some (getNodes e ! nat (cursorIndex c))"
    using b inner by (simp add: nth_js_def)
  have cj: "nth_js (children (getNodes e ! nat (cursorIndex c))) 0 =
      Some (children (getNodes e ! nat (cursorIndex c)) ! 0)"
    using kids by (simp add: nth_js_def)
  note en = enterNode_ok[OF ix r nj cj, of Right]
  show "path (snd (moveRight c)) =
           path c @ [\<lparr>nodeIndex = cursorIndex c, childIndex = 0, link_i = int (length (path c))\<rparr>]"
    and "cursorIndex (snd (moveRight c)) = 0"
    and "root (snd (moveRight c)) = root c"
    unfolding moveRight_ok[OF ix r b] en using inner kids
    by (simp_all add: path_def root_def moveInto_def)
qed

lemma moveRight_step:
  assumes ix: "indexed (path c)" and r: "resolvePath (path c) (root c) = Some e"
    and b: "0 \<le> cursorIndex c" "cursorIndex c \<le> int (length (getNodes e))"
    and inner: "cursorIndex c \<noteq> int (length (getNodes e))"
    and kids: "children (getNodes e ! nat (cursorIndex c)) = []"
  shows "path (snd (moveRight c)) = path c"
    and "cursorIndex (snd (moveRight c)) = cursorIndex c + 1"
    and "root (snd (moveRight c)) = root c"
  unfolding moveRight_ok[OF ix r b] using inner kids
  by (simp_all add: path_def root_def)

lemma moveRight_stay:
  assumes ix: "indexed (path c)" and r: "resolvePath (path c) (root c) = Some e"
    and b: "0 \<le> cursorIndex c" "cursorIndex c \<le> int (length (getNodes e))"
    and "end": "cursorIndex c = int (length (getNodes e))" and ne: "path c = []"
  shows "path (snd (moveRight c)) = path c"
    and "cursorIndex (snd (moveRight c)) = cursorIndex c"
  unfolding moveRight_ok[OF ix r b] using "end" ne
  by simp_all

lemma moveLeft_leave:
  assumes ix: "indexed (path c)" and r: "resolvePath (path c) (root c) = Some e"
    and b: "0 \<le> cursorIndex c" "cursorIndex c \<le> int (length (getNodes e))"
    and start: "cursorIndex c = 0" and ne: "path c \<noteq> []"
  shows "path (snd (moveLeft c)) = butlast (path c)"
    and "cursorIndex (snd (moveLeft c)) = nodeIndex (last (path c))"
  unfolding moveLeft_ok[OF ix r b] using start ne
  by (simp_all add: leaveNode_ok path_def)

lemma moveLeft_enter:
  assumes ix: "indexed (path c)" and r: "resolvePath (path c) (root c) = Some e"
    and b: "0 \<le> cursorIndex c" "cursorIndex c \<le> int (length (getNodes e))"
    and inner: "cursorIndex c \<noteq> 0"
    and kids: "children (getNodes e ! nat (cursorIndex c - 1)) \<noteq> []"
  shows "path (snd (moveLeft c)) =
           path c @ [\<lparr>nodeIndex = cursorIndex c - 1, childIndex = 0, link_i = int (length (path c))\<rparr>]"
    and "cursorIndex (snd (moveLeft c)) =
           int (length (getNodes (children (getNodes e ! nat (cursorIndex c - 1)) ! 0)))"
proof -
  have nj: "nth_js (getNodes e) (cursorIndex c - 1) = Some (getNodes e ! nat (cursorIndex c - 1))"
    using b inner by (simp add: nth_js_def)
  have cj: "nth_js (children (getNodes e ! nat (cursorIndex c - 1))) 0 =
      Some (children (getNodes e ! nat (cursorIndex c - 1)) ! 0)"
    using kids by (simp add: nth_js_def)
  note en = enterNode_ok[OF ix r nj cj, of Left]
  show "path (snd (moveLeft c)) =
           path c @ [\<lparr>nodeIndex = cursorIndex c - 1, childIndex = 0, link_i = int (length (path c))\<rparr>]"
    and "cursorIndex (snd (moveLeft c)) =
           int (length (getNodes (children (getNodes e ! nat (cursorIndex c - 1)) ! 0)))"
    unfolding moveLeft_ok[OF ix r b] en using inner kids
    by (simp_all add: path_def moveInto_def)
qed

lemma moveLeft_step:
  assumes ix: "indexed (path c)" and r: "resolvePath (path c) (root c) = Some e"
    and b: "0 \<le> cursorIndex c" "cursorIndex c \<le> int (length (getNodes e))"
    and inner: "cursorIndex c \<noteq> 0"
    and kids: "children (getNodes e ! nat (cursorIndex c - 1)) = []"
  shows "path (snd (moveLeft c)) = path c"
    and "cursorIndex (snd (moveLeft c)) = cursorIndex c - 1"
  unfolding moveLeft_ok[OF ix r b] using inner kids
  by (simp_all add: path_def)

lemma right_left_from_end:
  assumes inv: "cursor_inv c" and r: "resolvePath (path c) (root c) = Some e"
    and "end": "cursorIndex c = int (length (getNodes e))" and ne: "path c \<noteq> []"
    and e1: "resolvePath (butlast (path c)) (root c) = Some e1"
    and n: "nth_js (getNodes e1) (nodeIndex (last (path c))) = Some n"
    and ch: "nth_js (children n) (childIndex (last (path c))) = Some e"
  shows "path (snd (moveLeft (snd (moveRight c)))) = butlast (path c) @ [(last (path c))\<lparr>childIndex := 0\<rparr>]"
    and "cursorIndex (snd (moveLeft (snd (moveRight c)))) = int (length (getNodes (children n ! 0)))"
proof -
  from inv have ix: "indexed (path c)" and b: "0 \<le> cursorIndex c"
    by (simp_all add: cursor_inv_def split: option.splits)
  have b2: "cursorIndex c \<le> int (length (getNodes e))" using "end" by simp
  let ?c1 = "snd (moveRight c)"
  note m = moveRight_leave[OF ix r b b2 "end" ne]
  have inv1: "cursor_inv ?c1" using inv by (rule moveRight_inv)
  have ix1: "indexed (path ?c1)" using inv1 by (simp add: cursor_inv_def)
  have r1: "resolvePath (path ?c1) (root ?c1) = Some e1" using e1 by (simp add: m)
  have ni: "0 \<le> nodeIndex (last (path c))" "nodeIndex (last (path c)) < int (length (getNodes e1))"
    "getNodes e1 ! nat (nodeIndex (last (path c))) = n"
    using n by (simp_all add: nth_js_Some_iff)
  have b1: "0 \<le> cursorIndex ?c1" "cursorIndex ?c1 \<le> int (length (getNodes e1))"
    using ni by (simp_all add: m)
  have inner: "cursorIndex ?c1 \<noteq> 0" using ni by (simp add: m)
  have prev: "getNodes e1 ! nat (cursorIndex ?c1 - 1) = n" using ni by (simp add: m)
  have kids: "children (getNodes e1 ! nat (cursorIndex ?c1 - 1)) \<noteq> []"
    unfolding prev using ch by (auto simp: nth_js_def split: if_splits)
  note l = moveLeft_enter[OF ix1 r1 b1 inner kids]
  show "path (snd (moveLeft ?c1)) = butlast (path c) @ [(last (path c))\<lparr>childIndex := 0\<rparr>]"
    unfolding l(1) m top_link_update[OF ix ne, symmetric] by simp
  show "cursorIndex (snd (moveLeft ?c1)) = int (length (getNodes (children n ! 0)))"
    unfolding l(2) prev ..
qed

lemma right_left_inner:
  assumes inv: "cursor_inv c" and r: "resolvePath (path c) (root c) = Some e"
    and inner: "cursorIndex c \<noteq> int (length (getNodes e))"
  shows "path (snd (moveLeft (snd (moveRight c)))) = path c"
    and "cursorIndex (snd (moveLeft (snd (moveRight c)))) = cursorIndex c"
proof -
  from inv r have ix: "indexed (path c)" and b: "0 \<le> cursorIndex c"
    "cursorIndex c \<le> int (length (getNodes e))"
    by (simp_all add: cursor_inv_def)
  let ?c1 = "snd (moveRight c)"
  let ?n = "getNodes e ! nat (cursorIndex c)"
  have inv1: "cursor_inv ?c1" using inv by (rule moveRight_inv)
  have ix1: "indexed (path ?c1)" using inv1 by (simp add: cursor_inv_def)
  have "path (snd (moveLeft ?c1)) = path c \<and> cursorIndex (snd (moveLeft ?c1)) = cursorIndex c"
  proof (cases "children ?n = []")
    case True
    note m = moveRight_step[OF ix r b inner True]
    have r1: "resolvePath (path ?c1) (root ?c1) = Some e" using r by (simp add: m)
    have b1: "0 \<le> cursorIndex ?c1" "cursorIndex ?c1 \<le> int (length (getNodes e))"
      using b inner by (simp_all add: m)
    have inner1: "cursorIndex ?c1 \<noteq> 0" using b by (simp add: m)
    have kids: "children (getNodes e ! nat (cursorIndex ?c1 - 1)) = []" using True by (simp add: m)
    show ?thesis using moveLeft_step[OF ix1 r1 b1 inner1 kids] by (simp add: m)
  next
    case False
    note m = moveRight_enter[OF ix r b inner False]
    from inv1 obtain e' where r1: "resolvePath (path ?c1) (root ?c1) = Some e'"
      and b1: "0 \<le> cursorIndex ?c1" "cursorIndex ?c1 \<le> int (length (getNodes e'))"
      by (rule cursor_invE)
    have ne1: "path ?c1 \<noteq> []" by (simp add: m)
    show ?thesis using moveLeft_leave[OF ix1 r1 b1 m(2) ne1] by (simp add: m)
  qed
  then show "path (snd (moveLeft ?c1)) = path c" and "cursorIndex (snd (moveLeft ?c1)) = cursorIndex c"
    by simp_all
qed

subsection \<open>The Backspace key\<close>

lemma not_includes_Backspace:
  "\<not> string_includes ALPHANUM ''Backspace''" "\<not> string_includes ''!@#&-=+':<>,.?|'' ''Backspace''"
  by code_simp+

lemma backspace_dispatch:
  "handleKeydown ''Backspace'' env c =
     (if cursorIndex c = 0
      then removeEnclosingNode (notifyUpdates (c\<lparr>lastBlinkInterrupt := now env, blinkState := True\<rparr>))
      else deleteCharacterAtCursor (notifyUpdates (c\<lparr>lastBlinkInterrupt := now env, blinkState := True\<rparr>)))"
  by (simp add: handleKeydown_def Let_def not_includes_Backspace backslash_def)

subsection \<open>What the observers are shown\<close>

lemma notifiedSeeing_refl: "notifiedSeeing [] c c"
  by (simp add: notifiedSeeing_def)

lemma notifiedSeeing_notify:
  "notifiedSeeing ss c c1 \<Longrightarrow> notifiedSeeing (ss @ [observe c1]) c (notifyUpdates c1)"
  by (simp add: notifiedSeeing_def calls_def)

lemma notifiedSeeing_trans:
  "notifiedSeeing ss c c1 \<Longrightarrow> notifiedSeeing ts c1 c2 \<Longrightarrow> notifiedSeeing (ss @ ts) c c2"
  by (simp add: notifiedSeeing_def)

lemma notifiedSeeing_update [simp]:
  "notifiedSeeing ss c (c1\<lparr>location := l\<rparr>) = notifiedSeeing ss c c1"
  "notifiedSeeing ss c (c1\<lparr>cursorIndex := i\<rparr>) = notifiedSeeing ss c c1"
  "notifiedSeeing ss c (storeEnclosing e c1) = notifiedSeeing ss c c1"
  by (simp_all add: notifiedSeeing_def storeEnclosing_def)

lemma notifiedSeeing_final:
  "notifiedSeeing [] c c1 \<Longrightarrow> notifiedSeeing [observe c1] c (notifyUpdates c1)"
  using notifiedSeeing_notify[of "[]" c c1] by simp

lemma enterNode_notifies:
  "fst (enterNode ni ci dir c) = Inr u \<Longrightarrow> notifiedSeeing [observe (snd (enterNode ni ci dir c))] c (snd (enterNode ni ci dir c))"
  by (auto simp: enterNode_def Let_def intro!: notifiedSeeing_final notifiedSeeing_refl
      split: if_splits sum.splits option.splits)

lemma leaveNode_notifies:
  "fst (leaveNode dir c) = Inr l \<Longrightarrow> notifiedSeeing [observe (snd (leaveNode dir c))] c (snd (leaveNode dir c))"
  by (auto simp: leaveNode_def Let_def intro!: notifiedSeeing_final notifiedSeeing_refl
      split: if_splits sum.splits option.splits prod.splits)

lemma insertNodeAtCursor_notifies:
  "fst (insertNodeAtCursor node c) = Inr i \<Longrightarrow>
   notifiedSeeing [observe (snd (insertNodeAtCursor node c))] c (snd (insertNodeAtCursor node c))"
  by (auto simp: insertNodeAtCursor_def Let_def intro!: notifiedSeeing_final notifiedSeeing_refl
      split: if_splits sum.splits option.splits)

lemma insertCharacterAtCursor_notifies:
  "fst (insertCharacterAtCursor ch fresh c) = Inr u \<Longrightarrow>
   notifiedSeeing [observe (snd (insertCharacterAtCursor ch fresh c))] c (snd (insertCharacterAtCursor ch fresh c))"
  by (auto simp: insertCharacterAtCursor_def Let_def intro!: notifiedSeeing_final notifiedSeeing_refl
      split: if_splits sum.splits option.splits)

lemma deleteCharacterAtCursor_notifies:
  "fst (deleteCharacterAtCursor c) = Inr u \<Longrightarrow>
   notifiedSeeing [observe (snd (deleteCharacterAtCursor c))] c (snd (deleteCharacterAtCursor c))"
  by (auto simp: deleteCharacterAtCursor_def Let_def intro!: notifiedSeeing_final notifiedSeeing_refl
      split: if_splits sum.splits option.splits)

lemma removeEnclosingNode_notifies:
  "fst (removeEnclosingNode c) = Inr u \<Longrightarrow>
   notifiedSeeing [observe (snd (removeEnclosingNode c))] c (snd (removeEnclosingNode c))"
  by (auto simp: removeEnclosingNode_def Let_def intro!: notifiedSeeing_final notifiedSeeing_refl
      split: if_splits sum.splits option.splits prod.splits)

lemma andThen_Inr:
  assumes "fst (andThen r f) = Inr v"
  obtains w where "fst r = Inr w" "andThen r f = f w (snd r)"
  using assms by (cases r; cases "fst r") (auto simp: andThen_def)

lemma andThen_notify:
  assumes "fst (andThen r (\<lambda>u c'. (Inr (), notifyUpdates c'))) = Inr v"
  shows "\<exists>w. fst r = Inr w" and "snd (andThen r (\<lambda>u c'. (Inr (), notifyUpdates c'))) = notifyUpdates (snd r)"
  using assms by (cases r; cases "fst r"; auto simp: andThen_def)+

lemma andThen_forget:
  assumes "fst (andThen r (\<lambda>l c'. (Inr (), c'))) = Inr v"
  shows "\<exists>w. fst r = Inr w" and "snd (andThen r (\<lambda>l c'. (Inr (), c'))) = snd r"
  using assms by (cases r; cases "fst r"; auto simp: andThen_def)+

lemma enterNode_path:
  "path (snd (enterNode ni ci dir c)) =
     path c @ [\<lparr>nodeIndex = ni, childIndex = ci, link_i = int (length (path c))\<rparr>]"
  by (simp add: enterNode_def Let_def path_def moveInto_def split: sum.split option.split)

lemma leaveNode_path:
  "path c \<noteq> [] \<Longrightarrow> path (snd (leaveNode dir c)) \<noteq> path c"
proof -
  assume ne: "path c \<noteq> []"
  have "length (path (snd (leaveNode dir c))) = length (path c) - 1"
    by (simp add: leaveNode_ok[OF ne] path_def)
  then show ?thesis using ne by (cases "path c") auto
qed

lemma horizontal_notifies:
  assumes inner: "\<And>w. fst r = Inr w \<Longrightarrow>
      (path (snd r) = path c \<and> notifiedSeeing [] c (snd r)) \<or>
      (path (snd r) \<noteq> path c \<and> notifiedSeeing [observe (snd r)] c (snd r))"
    and ok: "fst (andThen r (\<lambda>u c'. (Inr (), notifyUpdates c'))) = Inr v"
  shows "if path (snd (andThen r (\<lambda>u c'. (Inr (), notifyUpdates c')))) = path c
         then notifiedSeeing [observe (snd (andThen r (\<lambda>u c'. (Inr (), notifyUpdates c'))))] c
                (snd (andThen r (\<lambda>u c'. (Inr (), notifyUpdates c'))))
         else notifiedSeeing [observe (snd (andThen r (\<lambda>u c'. (Inr (), notifyUpdates c')))),
                              observe (snd (andThen r (\<lambda>u c'. (Inr (), notifyUpdates c'))))] c
                (snd (andThen r (\<lambda>u c'. (Inr (), notifyUpdates c'))))"
proof -
  from andThen_notify(1)[OF ok] obtain w' where w': "fst r = Inr w'" ..
  with inner have "(path (snd r) = path c \<and> notifiedSeeing [] c (snd r)) \<or>
      (path (snd r) \<noteq> path c \<and> notifiedSeeing [observe (snd r)] c (snd r))"
    by simp
  then show ?thesis
    unfolding andThen_notify(2)[OF ok] by (auto dest: notifiedSeeing_notify)
qed

lemma moveRight_notifies:
  assumes "fst (moveRight c) = Inr u"
  shows "if path (snd (moveRight c)) = path c
         then notifiedSeeing [observe (snd (moveRight c))] c (snd (moveRight c))
         else notifiedSeeing [observe (snd (moveRight c)), observe (snd (moveRight c))] c (snd (moveRight c))"
proof -
  from assms obtain expression where g: "getEnclosingExpression (location c) = Inr (Some expression)"
    by (auto simp: moveRight_def split: sum.splits option.splits)
  let ?r = "(if cursorIndex c = int (length (getNodes expression)) then
               (if \<not> atRoot (location c) then andThen (leaveNode Right c) (\<lambda>link c'. (Inr (), c'))
                else (Inr (), c))
             else
               (case nth_js (getNodes expression) (cursorIndex c) of
                  None \<Rightarrow> (Inl TypeError, c)
                | Some nextNode \<Rightarrow>
                    (if length (children nextNode) \<noteq> 0 then enterNode (cursorIndex c) 0 Right c
                     else (Inr (), c\<lparr>cursorIndex := cursorIndex c + 1\<rparr>))))"
  have eq: "moveRight c = andThen ?r (\<lambda>u c'. (Inr (), notifyUpdates c'))"
    by (simp add: moveRight_def g)
  have inner: "(path (snd ?r) = path c \<and> notifiedSeeing [] c (snd ?r)) \<or>
      (path (snd ?r) \<noteq> path c \<and> notifiedSeeing [observe (snd ?r)] c (snd ?r))"
    if "fst ?r = Inr ()"
  proof (cases "cursorIndex c = int (length (getNodes expression))")
    case True
    show ?thesis
    proof (cases "atRoot (location c)")
      case True
      then show ?thesis using \<open>cursorIndex c = int (length (getNodes expression))\<close>
        by (simp add: notifiedSeeing_refl)
    next
      case False
      then have r: "?r = andThen (leaveNode Right c) (\<lambda>link c'. (Inr (), c'))" using True by simp
      from that obtain l where "fst (leaveNode Right c) = Inr l"
        unfolding r using andThen_forget(1) by blast
      then have "notifiedSeeing [observe (snd (leaveNode Right c))] c (snd (leaveNode Right c))"
        by (rule leaveNode_notifies)
      moreover have "path (snd (leaveNode Right c)) \<noteq> path c"
        by (rule leaveNode_path) (use False in \<open>simp add: atRoot_def path_def\<close>)
      ultimately show ?thesis unfolding r andThen_forget(2)[OF that[unfolded r]] by simp
    qed
  next
    case False
    show ?thesis
    proof (cases "nth_js (getNodes expression) (cursorIndex c)")
      case None
      then show ?thesis using that False by simp
    next
      case (Some nextNode)
      show ?thesis
      proof (cases "length (children nextNode) \<noteq> 0")
        case True
        then have r: "?r = enterNode (cursorIndex c) 0 Right c" using False Some by simp
        show ?thesis unfolding r using that[unfolded r]
          by (auto dest: enterNode_notifies simp: enterNode_path)
      next
        case nokids: False
        then have r: "?r = (Inr (), c\<lparr>cursorIndex := cursorIndex c + 1\<rparr>)" using False Some by simp
        show ?thesis unfolding r by (simp add: notifiedSeeing_refl path_def)
      qed
    qed
  qed
  show ?thesis
    unfolding eq by (rule horizontal_notifies) (use inner assms[unfolded eq] in auto)
qed

lemma moveLeft_notifies:
  assumes "fst (moveLeft c) = Inr u"
  shows "if path (snd (moveLeft c)) = path c
         then notifiedSeeing [observe (snd (moveLeft c))] c (snd (moveLeft c))
         else notifiedSeeing [observe (snd (moveLeft c)), observe (snd (moveLeft c))] c (snd (moveLeft c))"
proof -
  from assms obtain expression where g: "getEnclosingExpression (location c) = Inr (Some expression)"
    by (auto simp: moveLeft_def split: sum.splits option.splits)
  let ?r = "(if cursorIndex c = 0 then
               (if \<not> atRoot (location c) then andThen (leaveNode Left c) (\<lambda>link c'. (Inr (), c'))
                else (Inr (), c))
             else
               (case nth_js (getNodes expression) (cursorIndex c - 1) of
                  None \<Rightarrow> (Inl TypeError, c)
                | Some previousNode \<Rightarrow>
                    (if length (children previousNode) \<noteq> 0
                     then enterNode (cursorIndex c - 1) 0 Left c
                     else (Inr (), c\<lparr>cursorIndex := cursorIndex c - 1\<rparr>))))"
  have eq: "moveLeft c = andThen ?r (\<lambda>u c'. (Inr (), notifyUpdates c'))"
    by (simp add: moveLeft_def g)
  have inner: "(path (snd ?r) = path c \<and> notifiedSeeing [] c (snd ?r)) \<or>
      (path (snd ?r) \<noteq> path c \<and> notifiedSeeing [observe (snd ?r)] c (snd ?r))"
    if "fst ?r = Inr ()"
  proof (cases "cursorIndex c = 0")
    case True
    show ?thesis
    proof (cases "atRoot (location c)")
      case True
      then show ?thesis using \<open>cursorIndex c = 0\<close> by (simp add: notifiedSeeing_refl)
    next
      case False
      then have r: "?r = andThen (leaveNode Left c) (\<lambda>link c'. (Inr (), c'))" using True by simp
      from that obtain l where "fst (leaveNode Left c) = Inr l"
        unfolding r using andThen_forget(1) by blast
      then have "notifiedSeeing [observe (snd (leaveNode Left c))] c (snd (leaveNode Left c))"
        by (rule leaveNode_notifies)
      moreover have "path (snd (leaveNode Left c)) \<noteq> path c"
        by (rule leaveNode_path) (use False in \<open>simp add: atRoot_def path_def\<close>)
      ultimately show ?thesis unfolding r andThen_forget(2)[OF that[unfolded r]] by simp
    qed
  next
    case False
    show ?thesis
    proof (cases "nth_js (getNodes expression) (cursorIndex c - 1)")
      case None
      then show ?thesis using that False by simp
    next
      case (Some previousNode)
      show ?thesis
      proof (cases "length (children previousNode) \<noteq> 0")
        case True
        then have r: "?r = enterNode (cursorIndex c - 1) 0 Left c" using False Some by simp
        show ?thesis unfolding r using that[unfolded r]
          by (auto dest: enterNode_notifies simp: enterNode_path)
      next
        case nokids: False
        then have r: "?r = (Inr (), c\<lparr>cursorIndex := cursorIndex c - 1\<rparr>)" using False Some by simp
        show ?thesis unfolding r by (simp add: notifiedSeeing_refl path_def)
      qed
    qed
  qed
  show ?thesis
    unfolding eq by (rule horizontal_notifies) (use inner assms[unfolded eq] in auto)
qed

lemma reenter_notifies:
  assumes ne: "\<not> atRoot (location c)" and j: "j \<noteq> childIndex (last (path c))"
    and ok: "fst (andThen (leaveNode Left c) (\<lambda>l. enterNode (nodeIndex (last (path c))) j dir)) = Inr u"
  shows "path (snd (andThen (leaveNode Left c) (\<lambda>l. enterNode (nodeIndex (last (path c))) j dir))) \<noteq> path c"
    and "notifiedSeeing [observe (snd (leaveNode Left c)),
           observe (snd (andThen (leaveNode Left c) (\<lambda>l. enterNode (nodeIndex (last (path c))) j dir)))] c
           (snd (andThen (leaveNode Left c) (\<lambda>l. enterNode (nodeIndex (last (path c))) j dir)))"
proof -
  have pne: "path c \<noteq> []" using ne by (simp add: atRoot_def path_def)
  note l = leaveNode_ok[OF pne, of Left]
  let ?c1 = "snd (leaveNode Left c)"
  have eq: "andThen (leaveNode Left c) (\<lambda>l. enterNode (nodeIndex (last (path c))) j dir) =
      enterNode (nodeIndex (last (path c))) j dir ?c1"
    by (simp add: l)
  have "last (path (snd (enterNode (nodeIndex (last (path c))) j dir ?c1))) \<noteq> last (path c)"
  proof
    assume "last (path (snd (enterNode (nodeIndex (last (path c))) j dir ?c1))) = last (path c)"
    then have "childIndex (last (path (snd (enterNode (nodeIndex (last (path c))) j dir ?c1))))
        = childIndex (last (path c))"
      by simp
    then show False using j by (simp add: enterNode_path)
  qed
  then show "path (snd (andThen (leaveNode Left c) (\<lambda>l. enterNode (nodeIndex (last (path c))) j dir))) \<noteq> path c"
    unfolding eq by auto
  have 1: "notifiedSeeing [observe ?c1] c ?c1"
    by (rule leaveNode_notifies[of Left c "last (path c)"]) (simp add: l)
  have 2: "notifiedSeeing [observe (snd (enterNode (nodeIndex (last (path c))) j dir ?c1))] ?c1
      (snd (enterNode (nodeIndex (last (path c))) j dir ?c1))"
    using ok[unfolded eq] by (rule enterNode_notifies)
  from notifiedSeeing_trans[OF 1 2]
  show "notifiedSeeing [observe (snd (leaveNode Left c)),
           observe (snd (andThen (leaveNode Left c) (\<lambda>l. enterNode (nodeIndex (last (path c))) j dir)))] c
           (snd (andThen (leaveNode Left c) (\<lambda>l. enterNode (nodeIndex (last (path c))) j dir)))"
    unfolding eq by simp
qed

lemma moveDown_notifies:
  assumes "fst (moveDown c) = Inr u"
  shows "if path (snd (moveDown c)) = path c then snd (moveDown c) = c
         else notifiedSeeing [observe (snd (leaveNode Left c)), observe (snd (moveDown c))] c
                (snd (moveDown c))"
proof (cases "atRoot (location c)")
  case True
  then show ?thesis by (simp add: moveDown_def)
next
  case False
  then have top: "getTopLevelLink (location c) = Inr (last (path c))"
    by (simp add: getTopLevelLink_def path_def)
  from assms False top obtain info en where
    res: "resolveLinkInfo (location c) (last (path c)) = Inr info" and en: "enclosingNode info = Some en"
    by (auto simp: moveDown_def split: sum.splits option.splits)
  show ?thesis
  proof (cases "childIndex (last (path c)) < int (length (children en)) - 1")
    case True
    then have eq: "moveDown c = andThen (leaveNode Left c)
        (\<lambda>l. enterNode (nodeIndex (last (path c))) (childIndex (last (path c)) + 1) Left)"
      using False top res en by (simp add: moveDown_def Let_def)
    from reenter_notifies[OF False _ assms[unfolded eq]] show ?thesis unfolding eq by simp
  next
    case nomove: False
    then have "moveDown c = (Inr (), c)" using False top res en by (simp add: moveDown_def Let_def)
    then show ?thesis by simp
  qed
qed

lemma moveUp_notifies:
  assumes "fst (moveUp c) = Inr u"
  shows "if path (snd (moveUp c)) = path c then snd (moveUp c) = c
         else notifiedSeeing [observe (snd (leaveNode Left c)), observe (snd (moveUp c))] c
                (snd (moveUp c))"
proof (cases "atRoot (location c)")
  case True
  then show ?thesis by (simp add: moveUp_def)
next
  case False
  then have top: "getTopLevelLink (location c) = Inr (last (path c))"
    by (simp add: getTopLevelLink_def path_def)
  from assms False top obtain info en where
    res: "resolveLinkInfo (location c) (last (path c)) = Inr info" and en: "enclosingNode info = Some en"
    by (auto simp: moveUp_def split: sum.splits option.splits)
  show ?thesis
  proof (cases "childIndex (last (path c)) > 0")
    case True
    then have eq: "moveUp c = andThen (leaveNode Left c)
        (\<lambda>l. enterNode (nodeIndex (last (path c))) (childIndex (last (path c)) - 1) Right)"
      using False top res en by (simp add: moveUp_def Let_def)
    from reenter_notifies[OF False _ assms[unfolded eq]] show ?thesis unfolding eq by simp
  next
    case nomove: False
    then have "moveUp c = (Inr (), c)" using False top res en by (simp add: moveUp_def Let_def)
    then show ?thesis by simp
  qed
qed

subsection \<open>Rendering\<close>


lemma splice_empty: "array_splice k 0 [x] [] = [x]"
  by (simp add: array_splice_def spliceStart_def)

lemma isEnclosingExpression_resolved:
  "getEnclosingExpression (location c) = Inr (Some encl) \<Longrightarrow>
   isEnclosingExpression c here = Inr (cursorAddress c = here)"
  by (simp add: isEnclosingExpression_def)

lemma renderAsLaTeX_unfold:
  assumes "getEnclosingExpression (location c) = Inr (Some encl)"
    and "renderNodes c here 0 (getNodes e) = Inr frags"
  shows "renderAsLaTeX c here e =
     Inr (let parts = (if cursorAddress c = here
                       then array_splice (cursorIndex c) 0 [renderAsLatex c] frags else frags);
              rendered = join '' '' parts
          in if rendered = [] then placeholder else rendered)"
  using assms by (cases e) (simp add: isEnclosingExpression_resolved Let_def getCursorIndex_def)








section \<open>Properties of the cursor on the store\<close>

subsection \<open>Resolving paths on the store\<close>

lemma resolveLoop_obj_resolveInfo:
  "0 \<le> i \<Longrightarrow> i \<le> link_i link + 1 \<Longrightarrow> link_i link < int (length (path_obj c)) \<Longrightarrow>
   resolveLoop_obj c link i ce cn =
     resolveInfo_obj (objects c) (drop (nat i) (take (nat (link_i link + 1)) (path_obj c))) ce cn"
proof (induction c link i ce cn rule: resolveLoop_obj.induct)
  case (1 c link i ce cn)
  show ?case
  proof (cases "i \<le> link_i link")
    case False
    with 1(3) have "i = link_i link + 1" by simp
    then show ?thesis using False by (simp add: resolveLoop_obj.simps[of c link i])
  next
    case True
    let ?p = "path_obj c"
    have len: "nat i < length (take (nat (link_i link + 1)) ?p)" using True 1(2,4) by simp
    have dr: "drop (nat i) (take (nat (link_i link + 1)) ?p) =
        ?p ! nat i # drop (nat (i + 1)) (take (nat (link_i link + 1)) ?p)"
      using len 1(2) True 1(4) by (simp add: Cons_nth_drop_Suc[symmetric] nat_add_distrib)
    have nj: "nth_js ?p i = Some (?p ! nat i)" using True 1(2,4) by (simp add: nth_js_def)
    show ?thesis
    proof (cases ce)
      case None
      then show ?thesis using True dr by (simp add: resolveLoop_obj.simps[of c link i])
    next
      case (Some e)
      show ?thesis
      proof (cases "nth_js (nodesOf (objects c) e) (nodeIndex (?p ! nat i))")
        case None
        then show ?thesis using True dr Some nj by (simp add: resolveLoop_obj.simps[of c link i])
      next
        case (Some n)
        have "resolveLoop_obj c link (i + 1)
              (nth_js (childrenOf (objects c) n) (childIndex (?p ! nat i))) (Some n)
            = resolveInfo_obj (objects c) (drop (nat (i + 1)) (take (nat (link_i link + 1)) ?p))
                (nth_js (childrenOf (objects c) n) (childIndex (?p ! nat i))) (Some n)"
          using 1(1)[OF True \<open>ce = Some e\<close> nj Some] True 1(2,4) by simp
        then show ?thesis using True dr \<open>ce = Some e\<close> nj Some
          by (simp add: resolveLoop_obj.simps[of c link i])
      qed
    qed
  qed
qed

declare resolveLoop_obj.simps [simp del]

lemma resolveInfo_obj_None: "ls \<noteq> [] \<Longrightarrow> resolveInfo_obj s ls None cn = Inl TypeError"
  by (cases ls) simp_all

lemma resolveInfo_obj_snoc:
  "resolveInfo_obj s (q @ [l]) (Some e) cn =
     (case resolvePath_obj s q e of
        None \<Rightarrow> Inl TypeError
      | Some e1 \<Rightarrow>
         (case nth_js (nodesOf s e1) (nodeIndex l) of
            None \<Rightarrow> Inl TypeError
          | Some n \<Rightarrow>
              Inr \<lparr>enclosingExpression_obj = nth_js (childrenOf s n) (childIndex l),
                   enclosingNode_obj = Some n\<rparr>))"
proof (induction q arbitrary: e cn)
  case Nil
  show ?case by (simp split: option.split)
next
  case (Cons a q)
  show ?case
  proof (cases "nth_js (nodesOf s e) (nodeIndex a)")
    case None
    then show ?thesis by simp
  next
    case (Some n)
    show ?thesis
    proof (cases "nth_js (childrenOf s n) (childIndex a)")
      case None
      then show ?thesis using Some by (simp add: resolveInfo_obj_None)
    next
      case (Some ch)
      then show ?thesis using \<open>nth_js (nodesOf s e) (nodeIndex a) = Some n\<close> Cons.IH by simp
    qed
  qed
qed

lemma resolvePath_obj_append:
  "resolvePath_obj s (p @ q) e =
     (case resolvePath_obj s p e of None \<Rightarrow> None | Some e1 \<Rightarrow> resolvePath_obj s q e1)"
proof (induction p arbitrary: e)
  case Nil
  show ?case by simp
next
  case (Cons a p)
  show ?case by (simp add: Cons.IH split: option.split)
qed

lemma resolvePath_obj_snoc:
  "resolvePath_obj s (q @ [l]) e =
     (case resolvePath_obj s q e of
        None \<Rightarrow> None
      | Some e1 \<Rightarrow>
         (case nth_js (nodesOf s e1) (nodeIndex l) of
            None \<Rightarrow> None
          | Some n \<Rightarrow> nth_js (childrenOf s n) (childIndex l)))"
  by (simp add: resolvePath_obj_append split: option.split)

lemma resolveLinkInfo_obj_last:
  assumes "indexed (path_obj c)" "path_obj c \<noteq> []"
  shows "resolveLinkInfo_obj c (last (path_obj c)) =
     resolveInfo_obj (objects c) (path_obj c) (Some (root_obj c)) None"
proof -
  have li: "link_i (last (path_obj c)) = int (length (path_obj c)) - 1"
    using assms by (rule indexed_last)
  have "resolveLoop_obj c (last (path_obj c)) 0 (Some (root_obj c)) None =
      resolveInfo_obj (objects c)
        (drop (nat 0) (take (nat (link_i (last (path_obj c)) + 1)) (path_obj c)))
        (Some (root_obj c)) None"
    by (rule resolveLoop_obj_resolveInfo) (use li assms(2) in simp_all)
  then show ?thesis by (simp add: resolveLinkInfo_obj_def li)
qed

lemma resolveLinkInfo_obj_top:
  assumes "indexed (path_obj c)" "path_obj c \<noteq> []"
  shows "resolveLinkInfo_obj c (last (path_obj c)) =
     (case resolvePath_obj (objects c) (butlast (path_obj c)) (root_obj c) of
        None \<Rightarrow> Inl TypeError
      | Some e1 \<Rightarrow>
         (case nth_js (nodesOf (objects c) e1) (nodeIndex (last (path_obj c))) of
            None \<Rightarrow> Inl TypeError
          | Some n \<Rightarrow>
              Inr \<lparr>enclosingExpression_obj =
                     nth_js (childrenOf (objects c) n) (childIndex (last (path_obj c))),
                   enclosingNode_obj = Some n\<rparr>))"
proof -
  have "path_obj c = butlast (path_obj c) @ [last (path_obj c)]" using assms(2) by simp
  then have "resolveInfo_obj (objects c) (path_obj c) (Some (root_obj c)) None =
     resolveInfo_obj (objects c) (butlast (path_obj c) @ [last (path_obj c)]) (Some (root_obj c)) None"
    by simp
  then show ?thesis
    unfolding resolveLinkInfo_obj_last[OF assms] resolveInfo_obj_snoc .
qed

lemma getEnclosingExpression_obj_eq:
  assumes "indexed (path_obj c)"
  shows "getEnclosingExpression_obj c =
     (if path_obj c = [] then Inr (Some (root_obj c))
      else case resolvePath_obj (objects c) (butlast (path_obj c)) (root_obj c) of
        None \<Rightarrow> Inl TypeError
      | Some e1 \<Rightarrow>
         (case nth_js (nodesOf (objects c) e1) (nodeIndex (last (path_obj c))) of
            None \<Rightarrow> Inl TypeError
          | Some n \<Rightarrow> Inr (nth_js (childrenOf (objects c) n) (childIndex (last (path_obj c))))))"
proof (cases "path_obj c = []")
  case True
  then show ?thesis by (simp add: getEnclosingExpression_obj_def atRoot_obj_def)
next
  case False
  then show ?thesis
    unfolding getEnclosingExpression_obj_def atRoot_obj_def resolveLinkInfo_obj_top[OF assms False]
    by (simp split: option.split)
qed

lemma getEnclosingExpression_obj_iff:
  assumes "indexed (path_obj c)"
  shows "getEnclosingExpression_obj c = Inr (Some e) \<longleftrightarrow>
         resolvePath_obj (objects c) (path_obj c) (root_obj c) = Some e"
proof (cases "path_obj c = []")
  case True
  then show ?thesis by (auto simp: getEnclosingExpression_obj_def atRoot_obj_def)
next
  case False
  then have eq: "path_obj c = butlast (path_obj c) @ [last (path_obj c)]" by simp
  have "resolvePath_obj (objects c) (path_obj c) (root_obj c) =
      resolvePath_obj (objects c) (butlast (path_obj c) @ [last (path_obj c)]) (root_obj c)"
    using eq by simp
  then show ?thesis
    using False
    unfolding resolvePath_obj_snoc getEnclosingExpression_obj_eq[OF assms]
    by (simp split: option.split)
qed

lemma resolvePath_obj_butlast:
  assumes "resolvePath_obj s p r = Some e" "p \<noteq> []"
  obtains e1 n where "resolvePath_obj s (butlast p) r = Some e1"
    "nth_js (nodesOf s e1) (nodeIndex (last p)) = Some n"
    "nth_js (childrenOf s n) (childIndex (last p)) = Some e"
proof -
  have "resolvePath_obj s (butlast p @ [last p]) r = Some e" using assms by simp
  then show ?thesis
    unfolding resolvePath_obj_snoc using that by (auto split: option.splits)
qed

lemma resolvePath_obj_prefix:
  assumes "resolvePath_obj s p r = Some e" "k < length p"
  obtains ek n ch where "resolvePath_obj s (take k p) r = Some ek"
    "nth_js (nodesOf s ek) (nodeIndex (p ! k)) = Some n"
    "nth_js (childrenOf s n) (childIndex (p ! k)) = Some ch"
proof -
  have "p = take k p @ p ! k # drop (Suc k) p" using assms(2) by (simp add: id_take_nth_drop)
  then have "resolvePath_obj s (take k p @ p ! k # drop (Suc k) p) r = Some e"
    using assms(1) by simp
  then show ?thesis
    unfolding resolvePath_obj_append using that by (auto split: option.splits)
qed

subsection \<open>Containment and well-formed stores\<close>

lemma belowI:
  "nth_js (nodesOf s e) i = Some n \<Longrightarrow> nth_js (childrenOf s n) j = Some ch \<Longrightarrow> (ch, e) \<in> below s"
proof -
  assume n: "nth_js (nodesOf s e) i = Some n" and ch: "nth_js (childrenOf s n) j = Some ch"
  have "n \<in> set (nodesOf s e)" using n by (auto simp: nth_js_Some_iff)
  moreover have "ch \<in> set (childrenOf s n)" using ch by (auto simp: nth_js_Some_iff)
  ultimately show ?thesis by (auto simp: below_def)
qed

lemma resolve_below: "resolvePath_obj s p r = Some e \<Longrightarrow> (e, r) \<in> (below s)\<^sup>*"
proof (induction p arbitrary: r)
  case Nil
  then show ?case by simp
next
  case (Cons l ls)
  from Cons.prems obtain n ch where
    n: "nth_js (nodesOf s r) (nodeIndex l) = Some n" and
    ch: "nth_js (childrenOf s n) (childIndex l) = Some ch" and
    rest: "resolvePath_obj s ls ch = Some e"
    by (auto split: option.splits)
  from Cons.IH[OF rest] belowI[OF n ch] show ?case by (rule rtrancl_into_rtrancl)
qed

lemma resolve_below_strict:
  "resolvePath_obj s p r = Some e \<Longrightarrow> p \<noteq> [] \<Longrightarrow> (e, r) \<in> (below s)\<^sup>+"
proof (cases p)
  case Nil
  assume "p \<noteq> []"
  with Nil show ?thesis by simp
next
  case (Cons l ls)
  assume "resolvePath_obj s p r = Some e"
  with Cons obtain n ch where
    n: "nth_js (nodesOf s r) (nodeIndex l) = Some n" and
    ch: "nth_js (childrenOf s n) (childIndex l) = Some ch" and
    rest: "resolvePath_obj s ls ch = Some e"
    by (auto split: option.splits)
  from resolve_below[OF rest] belowI[OF n ch] show ?thesis by (rule rtrancl_into_trancl1)
qed

text \<open>Splicing the array of the expression a path leads to does not disturb the path.\<close>

lemma resolve_frame:
  assumes "acyclic (below s)"
  shows "resolvePath_obj s p r = Some e \<Longrightarrow>
         resolvePath_obj (s\<lparr>nodesOf := (nodesOf s)(e := xs)\<rparr>) p r = Some e"
proof (induction p arbitrary: r)
  case Nil
  then show ?case by simp
next
  case (Cons l ls)
  from Cons.prems obtain n ch where
    n: "nth_js (nodesOf s r) (nodeIndex l) = Some n" and
    ch: "nth_js (childrenOf s n) (childIndex l) = Some ch" and
    rest: "resolvePath_obj s ls ch = Some e"
    by (auto split: option.splits)
  have "(e, r) \<in> (below s)\<^sup>+" using Cons.prems by (rule resolve_below_strict) simp
  then have "e \<noteq> r" using assms by (auto simp: acyclic_def)
  then show ?case using n ch Cons.IH[OF rest] by simp
qed

lemma resolve_allocated:
  assumes "wellFormed s"
  shows "resolvePath_obj s p r = Some e \<Longrightarrow> r < expressionCount s \<Longrightarrow> e < expressionCount s"
proof (induction p arbitrary: r)
  case Nil
  then show ?case by simp
next
  case (Cons l ls)
  from Cons.prems obtain n ch where
    n: "nth_js (nodesOf s r) (nodeIndex l) = Some n" and
    ch: "nth_js (childrenOf s n) (childIndex l) = Some ch" and
    rest: "resolvePath_obj s ls ch = Some e"
    by (auto split: option.splits)
  have "ch \<in> set (childrenOf s n)" using ch by (auto simp: nth_js_Some_iff)
  then have "ch < expressionCount s" using assms by (auto simp: wellFormed_def)
  with Cons.IH[OF rest] show ?case .
qed

lemma resolve_agree:
  assumes wf: "wellFormed s"
    and ne: "\<And>e. e < expressionCount s \<Longrightarrow> nodesOf s' e = nodesOf s e"
    and nc: "\<And>n. n < nodeCount s \<Longrightarrow> childrenOf s' n = childrenOf s n"
  shows "r < expressionCount s \<Longrightarrow> resolvePath_obj s' p r = resolvePath_obj s p r"
proof (induction p arbitrary: r)
  case Nil
  show ?case by simp
next
  case (Cons l ls)
  have eqn: "nodesOf s' r = nodesOf s r" using Cons.prems by (rule ne)
  show ?case
  proof (cases "nth_js (nodesOf s r) (nodeIndex l)")
    case None
    then show ?thesis by (simp add: eqn)
  next
    case (Some n)
    then have "n \<in> set (nodesOf s r)" by (auto simp: nth_js_Some_iff)
    then have "n < nodeCount s" using wf by (auto simp: wellFormed_def)
    then have eqc: "childrenOf s' n = childrenOf s n" by (rule nc)
    show ?thesis
    proof (cases "nth_js (childrenOf s n) (childIndex l)")
      case None
      then show ?thesis using Some by (simp add: eqn eqc)
    next
      case (Some ch)
      then have "ch \<in> set (childrenOf s n)" by (auto simp: nth_js_Some_iff)
      then have "ch < expressionCount s" using wf by (auto simp: wellFormed_def)
      from Cons.IH[OF this] show ?thesis
        using Some \<open>nth_js (nodesOf s r) (nodeIndex l) = Some n\<close> by (simp add: eqn eqc)
    qed
  qed
qed

lemma acyclic_add:
  assumes "acyclic r"
  shows "\<forall>c \<in> set cs. (e, c) \<notin> r\<^sup>* \<Longrightarrow> acyclic (r \<union> set cs \<times> {e})"
proof -
  have "(\<forall>c \<in> C. (e, c) \<notin> r\<^sup>*) \<Longrightarrow> set ds \<subseteq> C \<Longrightarrow>
        acyclic (r \<union> set ds \<times> {e}) \<and> (\<forall>c \<in> C. (e, c) \<notin> (r \<union> set ds \<times> {e})\<^sup>*)" for C ds
  proof (induction ds)
    case Nil
    then show ?case using assms by simp
  next
    case (Cons d ds)
    let ?R = "r \<union> set ds \<times> {e}"
    from Cons have IH: "acyclic ?R" "\<forall>c \<in> C. (e, c) \<notin> ?R\<^sup>*" and d: "d \<in> C" by auto
    have eq: "r \<union> set (d # ds) \<times> {e} = insert (d, e) ?R" by auto
    have 1: "acyclic (insert (d, e) ?R)" using IH d by (simp add: acyclic_insert)
    have 2: "\<forall>c \<in> C. (e, c) \<notin> (insert (d, e) ?R)\<^sup>*"
      using IH d by (auto simp: rtrancl_insert)
    show ?case unfolding eq using 1 2 by simp
  qed
  from this[of "set cs" cs] show "\<forall>c \<in> set cs. (e, c) \<notin> r\<^sup>* \<Longrightarrow> acyclic (r \<union> set cs \<times> {e})"
    by simp
qed

lemma set_splice_insert: "set (array_splice k 0 [x] xs) = insert x (set xs)"
proof -
  have "set (take j xs) \<union> set (drop j xs) = set xs" for j
    using set_append[of "take j xs" "drop j xs"] by simp
  then show ?thesis by (auto simp: array_splice_def Let_def)
qed

lemma set_splice_remove: "set (array_splice k d [] xs) \<subseteq> set xs"
  by (auto simp: array_splice_def Let_def dest: in_set_takeD in_set_dropD)

lemma wellFormed_insert:
  assumes wf: "wellFormed s" and n: "n < nodeCount s"
    and apart: "\<forall>ch \<in> set (childrenOf s n). (e, ch) \<notin> (below s)\<^sup>*"
    and xs: "set xs \<subseteq> insert n (set (nodesOf s e))"
  shows "wellFormed (s\<lparr>nodesOf := (nodesOf s)(e := xs)\<rparr>)"
proof -
  let ?s = "s\<lparr>nodesOf := (nodesOf s)(e := xs)\<rparr>"
  have sub: "below ?s \<subseteq> below s \<union> set (childrenOf s n) \<times> {e}"
    using xs by (auto simp: below_def split: if_splits)
  have "acyclic (below s \<union> set (childrenOf s n) \<times> {e})"
    by (rule acyclic_add) (use wf apart in \<open>auto simp: wellFormed_def\<close>)
  then have "acyclic (below ?s)" using sub by (rule acyclic_subset)
  then show ?thesis using wf n xs by (auto simp: wellFormed_def)
qed

lemma wellFormed_remove:
  assumes wf: "wellFormed s" and xs: "set xs \<subseteq> set (nodesOf s e)"
  shows "wellFormed (s\<lparr>nodesOf := (nodesOf s)(e := xs)\<rparr>)"
proof -
  let ?s = "s\<lparr>nodesOf := (nodesOf s)(e := xs)\<rparr>"
  have sub: "below ?s \<subseteq> below s"
    using xs by (auto simp: below_def split: if_splits)
  have "acyclic (below s)" using wf by (simp add: wellFormed_def)
  then have "acyclic (below ?s)" using sub by (rule acyclic_subset)
  then show ?thesis using wf xs by (auto simp: wellFormed_def)
qed

lemma new_MathNode_simps:
  "fst (new_MathNode fresh k s) = nodeCount s"
  "expressionCount (snd (new_MathNode fresh k s)) = expressionCount s + length (initialChildren k)"
  "nodeCount (snd (new_MathNode fresh k s)) = Suc (nodeCount s)"
  "e < expressionCount s \<Longrightarrow> nodesOf (snd (new_MathNode fresh k s)) e = nodesOf s e"
  "n < nodeCount s \<Longrightarrow> childrenOf (snd (new_MathNode fresh k s)) n = childrenOf s n"
  "childrenOf (snd (new_MathNode fresh k s)) (nodeCount s) =
     [expressionCount s ..< expressionCount s + length (initialChildren k)]"
  by (simp_all add: new_MathNode_def Let_def)

lemma wellFormed_new_MathNode:
  assumes wf: "wellFormed s"
  shows "wellFormed (snd (new_MathNode fresh k s))"
proof -
  let ?s = "snd (new_MathNode fresh k s)"
  have nodes: "n < nodeCount s" if "n \<in> set (nodesOf ?s e)" for n e
    using that wf by (auto simp: new_MathNode_def Let_def wellFormed_def split: if_splits)
  have sub: "below ?s \<subseteq> below s"
  proof
    fix x assume "x \<in> below ?s"
    then obtain ch e n where x: "x = (ch, e)" and n: "n \<in> set (nodesOf ?s e)"
      and ch: "ch \<in> set (childrenOf ?s n)"
      by (auto simp: below_def)
    from nodes[OF n] have lt: "n < nodeCount s" .
    then have c: "childrenOf ?s n = childrenOf s n" by (rule new_MathNode_simps(5))
    have "n \<in> set (nodesOf s e)"
      using n by (auto simp: new_MathNode_def Let_def split: if_splits)
    then show "x \<in> below s" using ch c x by (auto simp: below_def)
  qed
  have "acyclic (below s)" using wf by (simp add: wellFormed_def)
  then have a: "acyclic (below ?s)" using sub by (rule acyclic_subset)
  have kids: "ch < expressionCount ?s" if "ch \<in> set (childrenOf ?s n)" for ch n
  proof (cases "n = nodeCount s")
    case True
    then show ?thesis using that by (simp add: new_MathNode_simps)
  next
    case False
    then have "ch \<in> set (childrenOf s n)"
      using that by (simp add: new_MathNode_def Let_def)
    then have "ch < expressionCount s" using wf by (auto simp: wellFormed_def)
    then show ?thesis by (simp add: new_MathNode_simps)
  qed
  show ?thesis
    unfolding wellFormed_def using a nodes kids
    by (auto simp: new_MathNode_simps(3) less_Suc_eq)
qed

subsection \<open>The invariant on the store\<close>

lemma cursor_inv_objI:
  "wellFormed (objects c) \<Longrightarrow> root_obj c < expressionCount (objects c) \<Longrightarrow>
   indexed (path_obj c) \<Longrightarrow> resolvePath_obj (objects c) (path_obj c) (root_obj c) = Some e \<Longrightarrow>
   0 \<le> cursorIndex_obj c \<Longrightarrow> cursorIndex_obj c \<le> int (length (nodesOf (objects c) e)) \<Longrightarrow>
   cursor_inv_obj c"
  by (simp add: cursor_inv_obj_def)

lemma cursor_inv_objE:
  assumes "cursor_inv_obj c"
  obtains e where "wellFormed (objects c)" "root_obj c < expressionCount (objects c)"
    "indexed (path_obj c)" "resolvePath_obj (objects c) (path_obj c) (root_obj c) = Some e"
    "0 \<le> cursorIndex_obj c" "cursorIndex_obj c \<le> int (length (nodesOf (objects c) e))"
  using assms by (auto simp: cursor_inv_obj_def split: option.splits)

lemma notifyUpdates_obj_simps [simp]:
  "objects (notifyUpdates_obj c) = objects c"
  "root_obj (notifyUpdates_obj c) = root_obj c"
  "path_obj (notifyUpdates_obj c) = path_obj c"
  "cursorIndex_obj (notifyUpdates_obj c) = cursorIndex_obj c"
  by (simp_all add: notifyUpdates_obj_def)

lemma cursor_inv_obj_notify [simp]: "cursor_inv_obj (notifyUpdates_obj c) = cursor_inv_obj c"
  by (simp add: cursor_inv_obj_def split: option.split)

lemma andThen_obj_simps [simp]:
  "andThen_obj (Inl err, c) f = (Inl err, c)"
  "andThen_obj (Inr v, c) f = f v c"
  by (simp_all add: andThen_obj_def)

lemma getEnclosing_obj_inv:
  "indexed (path_obj c) \<Longrightarrow> resolvePath_obj (objects c) (path_obj c) (root_obj c) = Some e \<Longrightarrow>
   getEnclosingExpression_obj c = Inr (Some e)"
  by (simp add: getEnclosingExpression_obj_iff)

lemma moveInto_obj_simps [simp]:
  "objects (moveInto_obj ni ci c) = objects c"
  "root_obj (moveInto_obj ni ci c) = root_obj c"
  "path_obj (moveInto_obj ni ci c) =
     path_obj c @ [\<lparr>nodeIndex = ni, childIndex = ci, link_i = int (length (path_obj c))\<rparr>]"
  "cursorIndex_obj (moveInto_obj ni ci c) = cursorIndex_obj c"
  by (simp_all add: moveInto_obj_def)

lemma enterNode_obj_ok:
  assumes "indexed (path_obj c)" "resolvePath_obj (objects c) (path_obj c) (root_obj c) = Some e"
    and n: "nth_js (nodesOf (objects c) e) ni = Some n"
    and ch: "nth_js (childrenOf (objects c) n) ci = Some ch"
  shows "enterNode_obj ni ci dir c =
     (Inr (), notifyUpdates_obj ((moveInto_obj ni ci c)
        \<lparr>cursorIndex_obj := (if dir = Right then 0 else int (length (nodesOf (objects c) ch)))\<rparr>))"
proof -
  let ?c1 = "moveInto_obj ni ci c"
  have "indexed (path_obj ?c1)" using assms(1) by (simp add: indexed_snoc)
  moreover have "resolvePath_obj (objects ?c1) (path_obj ?c1) (root_obj ?c1) = Some ch"
    using assms(2) n ch by (simp add: resolvePath_obj_snoc)
  ultimately have "getEnclosingExpression_obj ?c1 = Inr (Some ch)"
    by (rule getEnclosing_obj_inv)
  then show ?thesis
    by (simp add: enterNode_obj_def Let_def)
qed

lemma enterNode_obj_inv:
  assumes "cursor_inv_obj c"
    "resolvePath_obj (objects c) (path_obj c) (root_obj c) = Some e"
    and n: "nth_js (nodesOf (objects c) e) ni = Some n"
    and ch: "nth_js (childrenOf (objects c) n) ci = Some ch"
  shows "cursor_inv_obj (snd (enterNode_obj ni ci dir c))"
proof -
  from assms(1) have ix: "indexed (path_obj c)" and wf: "wellFormed (objects c)"
    and rt: "root_obj c < expressionCount (objects c)"
    by (auto elim: cursor_inv_objE)
  let ?c2 = "(moveInto_obj ni ci c)
        \<lparr>cursorIndex_obj := (if dir = Right then 0 else int (length (nodesOf (objects c) ch)))\<rparr>"
  have "cursor_inv_obj ?c2"
  proof (rule cursor_inv_objI)
    show "indexed (path_obj ?c2)" using ix by (simp add: indexed_snoc)
    show "resolvePath_obj (objects ?c2) (path_obj ?c2) (root_obj ?c2) = Some ch"
      using assms(2) n ch by (simp add: resolvePath_obj_snoc)
  qed (use wf rt in simp_all)
  then show ?thesis
    unfolding enterNode_obj_ok[OF ix assms(2) n ch] by simp
qed

lemma leaveNode_obj_ok:
  "path_obj c \<noteq> [] \<Longrightarrow> leaveNode_obj dir c =
     (Inr (last (path_obj c)),
      notifyUpdates_obj (c\<lparr>path_obj := butlast (path_obj c),
        cursorIndex_obj := (if dir = Left then nodeIndex (last (path_obj c))
                        else nodeIndex (last (path_obj c)) + 1)\<rparr>))"
  by (simp add: leaveNode_obj_def pop_obj_def atRoot_obj_def)

lemma leaveNode_obj_inv:
  assumes "cursor_inv_obj c" "path_obj c \<noteq> []"
  shows "cursor_inv_obj (snd (leaveNode_obj dir c))"
proof -
  from assms(1) obtain e where wf: "wellFormed (objects c)"
    and rt: "root_obj c < expressionCount (objects c)" and ix: "indexed (path_obj c)"
    and r: "resolvePath_obj (objects c) (path_obj c) (root_obj c) = Some e"
    by (rule cursor_inv_objE)
  from r assms(2) obtain e1 n where
    e1: "resolvePath_obj (objects c) (butlast (path_obj c)) (root_obj c) = Some e1"
    and n: "nth_js (nodesOf (objects c) e1) (nodeIndex (last (path_obj c))) = Some n"
    by (rule resolvePath_obj_butlast)
  let ?c2 = "c\<lparr>path_obj := butlast (path_obj c),
        cursorIndex_obj := (if dir = Left then nodeIndex (last (path_obj c))
                        else nodeIndex (last (path_obj c)) + 1)\<rparr>"
  have "cursor_inv_obj ?c2"
  proof (rule cursor_inv_objI)
    show "indexed (path_obj ?c2)" using ix by (simp add: indexed_butlast)
    show "resolvePath_obj (objects ?c2) (path_obj ?c2) (root_obj ?c2) = Some e1" using e1 by simp
    show "0 \<le> cursorIndex_obj ?c2" using n by (simp add: nth_js_Some_iff)
    show "cursorIndex_obj ?c2 \<le> int (length (nodesOf (objects ?c2) e1))"
      using n by (simp add: nth_js_Some_iff)
  qed (use wf rt in simp_all)
  then show ?thesis unfolding leaveNode_obj_ok[OF assms(2)] by simp
qed

lemma store_update_inv:
  assumes wf: "wellFormed (objects c)" and rt: "root_obj c < expressionCount (objects c)"
    and ix: "indexed (path_obj c)"
    and r: "resolvePath_obj (objects c) (path_obj c) (root_obj c) = Some e"
    and wf': "wellFormed ((objects c)\<lparr>nodesOf := (nodesOf (objects c))(e := xs)\<rparr>)"
    and k: "0 \<le> k" "k \<le> int (length xs)"
  shows "cursor_inv_obj
           (c\<lparr>objects := (objects c)\<lparr>nodesOf := (nodesOf (objects c))(e := xs)\<rparr>,
              cursorIndex_obj := k\<rparr>)"
proof (rule cursor_inv_objI[where e = e])
  let ?c = "c\<lparr>objects := (objects c)\<lparr>nodesOf := (nodesOf (objects c))(e := xs)\<rparr>,
              cursorIndex_obj := k\<rparr>"
  have a: "acyclic (below (objects c))" using wf by (simp add: wellFormed_def)
  show "wellFormed (objects ?c)" using wf' by simp
  show "root_obj ?c < expressionCount (objects ?c)" using rt by simp
  show "indexed (path_obj ?c)" using ix by simp
  show "resolvePath_obj (objects ?c) (path_obj ?c) (root_obj ?c) = Some e"
    using resolve_frame[OF a r, of xs] by simp
  show "0 \<le> cursorIndex_obj ?c" using k by simp
  show "cursorIndex_obj ?c \<le> int (length (nodesOf (objects ?c) e))" using k by simp
qed

lemma insertNodeAtCursor_obj_ok:
  assumes "indexed (path_obj c)" "resolvePath_obj (objects c) (path_obj c) (root_obj c) = Some e"
  shows "insertNodeAtCursor_obj node c =
     (Inr (cursorIndex_obj c),
      notifyUpdates_obj
        (c\<lparr>objects := (objects c)\<lparr>nodesOf := (nodesOf (objects c))
               (e := array_splice (cursorIndex_obj c) 0 [node] (nodesOf (objects c) e))\<rparr>,
           cursorIndex_obj := cursorIndex_obj c + 1\<rparr>))"
  using getEnclosing_obj_inv[OF assms]
  by (simp add: insertNodeAtCursor_obj_def insertNode_obj_def Let_def)

lemma insertNodeAtCursor_obj_inv:
  assumes "cursor_inv_obj c" "apartNode c node"
  shows "cursor_inv_obj (snd (insertNodeAtCursor_obj node c))"
proof -
  from assms(1) obtain e where wf: "wellFormed (objects c)"
    and rt: "root_obj c < expressionCount (objects c)" and ix: "indexed (path_obj c)"
    and r: "resolvePath_obj (objects c) (path_obj c) (root_obj c) = Some e"
    and b: "0 \<le> cursorIndex_obj c" "cursorIndex_obj c \<le> int (length (nodesOf (objects c) e))"
    by (rule cursor_inv_objE)
  have g: "getEnclosingExpression_obj c = Inr (Some e)" using ix r by (rule getEnclosing_obj_inv)
  let ?xs = "array_splice (cursorIndex_obj c) 0 [node] (nodesOf (objects c) e)"
  have wf': "wellFormed ((objects c)\<lparr>nodesOf := (nodesOf (objects c))(e := ?xs)\<rparr>)"
  proof (rule wellFormed_insert[OF wf, where n = node])
    show "node < nodeCount (objects c)" using assms(2) by (simp add: apartNode_def)
    show "\<forall>ch\<in>set (childrenOf (objects c) node). (e, ch) \<notin> (below (objects c))\<^sup>*"
      using assms(2) g by (simp add: apartNode_def)
    show "set ?xs \<subseteq> insert node (set (nodesOf (objects c) e))"
      by (simp add: set_splice_insert)
  qed
  have "cursor_inv_obj
        (c\<lparr>objects := (objects c)\<lparr>nodesOf := (nodesOf (objects c))(e := ?xs)\<rparr>,
           cursorIndex_obj := cursorIndex_obj c + 1\<rparr>)"
    by (rule store_update_inv[OF wf rt ix r wf']) (use b in \<open>simp_all add: length_splice_insert\<close>)
  then show ?thesis unfolding insertNodeAtCursor_obj_ok[OF ix r] by simp
qed

lemma construct_simps [simp]:
  "root_obj (construct fresh k c) = root_obj c"
  "path_obj (construct fresh k c) = path_obj c"
  "cursorIndex_obj (construct fresh k c) = cursorIndex_obj c"
  "objects (construct fresh k c) = snd (new_MathNode fresh k (objects c))"
  by (simp_all add: construct_def)

lemma construct_resolve:
  assumes "wellFormed (objects c)" "root_obj c < expressionCount (objects c)"
  shows "resolvePath_obj (objects (construct fresh k c)) p (root_obj c) =
         resolvePath_obj (objects c) p (root_obj c)"
  unfolding construct_simps
  by (rule resolve_agree[OF assms(1) _ _ assms(2)]) (simp_all add: new_MathNode_simps)

lemma construct_inv:
  assumes "cursor_inv_obj c"
  shows "cursor_inv_obj (construct fresh k c)"
proof -
  from assms(1) obtain e where wf: "wellFormed (objects c)"
    and rt: "root_obj c < expressionCount (objects c)" and ix: "indexed (path_obj c)"
    and r: "resolvePath_obj (objects c) (path_obj c) (root_obj c) = Some e"
    and b: "0 \<le> cursorIndex_obj c" "cursorIndex_obj c \<le> int (length (nodesOf (objects c) e))"
    by (rule cursor_inv_objE)
  have e: "e < expressionCount (objects c)" using wf r rt by (rule resolve_allocated)
  show ?thesis
  proof (rule cursor_inv_objI[where e = e])
    show "wellFormed (objects (construct fresh k c))"
      using wf by (simp add: wellFormed_new_MathNode)
    show "root_obj (construct fresh k c) < expressionCount (objects (construct fresh k c))"
      using rt by (simp add: new_MathNode_simps)
    show "indexed (path_obj (construct fresh k c))" using ix by simp
    show "resolvePath_obj (objects (construct fresh k c)) (path_obj (construct fresh k c))
        (root_obj (construct fresh k c)) = Some e"
      using construct_resolve[OF wf rt, of fresh k "path_obj c"] r by simp
    show "0 \<le> cursorIndex_obj (construct fresh k c)" using b by simp
    show "cursorIndex_obj (construct fresh k c)
        \<le> int (length (nodesOf (objects (construct fresh k c)) e))"
      using b e by (simp add: new_MathNode_simps)
  qed
qed

text \<open>Typing a character is constructing a character node and inserting it.\<close>

lemma insertCharacterAtCursor_obj_eq:
  assumes "cursor_inv_obj c"
  shows "snd (insertCharacterAtCursor_obj character fresh c) =
         snd (insertNodeAtCursor_obj (nodeCount (objects c))
                (construct fresh (MathCharacter character) c))"
proof -
  from assms(1) obtain e where wf: "wellFormed (objects c)"
    and rt: "root_obj c < expressionCount (objects c)" and ix: "indexed (path_obj c)"
    and r: "resolvePath_obj (objects c) (path_obj c) (root_obj c) = Some e"
    by (rule cursor_inv_objE)
  let ?c = "construct fresh (MathCharacter character) c"
  have g: "getEnclosingExpression_obj c = Inr (Some e)" using ix r by (rule getEnclosing_obj_inv)
  have "resolvePath_obj (objects ?c) (path_obj ?c) (root_obj ?c) = Some e"
    using construct_resolve[OF wf rt, of fresh "MathCharacter character" "path_obj c"] r by simp
  then have g': "getEnclosingExpression_obj ?c = Inr (Some e)"
    using ix by (simp add: getEnclosingExpression_obj_iff)
  define s1 where "s1 = snd (new_MathNode fresh (MathCharacter character) (objects c))"
  have new: "new_MathNode fresh (MathCharacter character) (objects c) = (nodeCount (objects c), s1)"
    by (simp add: s1_def new_MathNode_def Let_def)
  have c': "?c = c\<lparr>objects := s1\<rparr>" by (simp add: construct_def s1_def)
  have g'': "getEnclosingExpression_obj (c\<lparr>objects := s1\<rparr>) = Inr (Some e)"
    using g' unfolding c' .
  have lhs: "snd (insertCharacterAtCursor_obj character fresh c) =
      notifyUpdates_obj
        (c\<lparr>objects := insertNode_obj (cursorIndex_obj c) (nodeCount (objects c)) e s1,
           cursorIndex_obj := cursorIndex_obj c + 1\<rparr>)"
    by (simp add: insertCharacterAtCursor_obj_def g new Let_def)
  have rhs: "snd (insertNodeAtCursor_obj (nodeCount (objects c)) (c\<lparr>objects := s1\<rparr>)) =
      notifyUpdates_obj
        (c\<lparr>objects := insertNode_obj (cursorIndex_obj c) (nodeCount (objects c)) e s1,
           cursorIndex_obj := cursorIndex_obj c + 1\<rparr>)"
    by (simp add: insertNodeAtCursor_obj_def g'' Let_def)
  show ?thesis unfolding c' lhs rhs ..
qed

lemma insertCharacterAtCursor_obj_inv:
  assumes "cursor_inv_obj c"
  shows "cursor_inv_obj (snd (insertCharacterAtCursor_obj character fresh c))"
proof -
  have "apartNode (construct fresh (MathCharacter character) c) (nodeCount (objects c))"
    by (simp add: apartNode_def new_MathNode_simps)
  with construct_inv[OF assms] show ?thesis
    unfolding insertCharacterAtCursor_obj_eq[OF assms] by (rule insertNodeAtCursor_obj_inv)
qed

lemma removeNthNode_obj_ok:
  "0 \<le> k \<Longrightarrow> k < int (length (nodesOf s e)) \<Longrightarrow>
   removeNthNode_obj k e s =
     Inr (s\<lparr>nodesOf := (nodesOf s)(e := array_splice k 1 [] (nodesOf s e))\<rparr>)"
  by (simp add: removeNthNode_obj_def)

lemma removeNthNode_obj_out:
  "k < 0 \<or> int (length (nodesOf s e)) \<le> k \<Longrightarrow> removeNthNode_obj k e s = Inl OutOfBounds"
  by (auto simp: removeNthNode_obj_def)

lemma length_splice_remove:
  "0 \<le> k \<Longrightarrow> k < int (length xs) \<Longrightarrow> length (array_splice k 1 [] xs) = length xs - 1"
  by (simp add: splice_remove)

lemma deleteCharacterAtCursor_obj_inv:
  assumes "cursor_inv_obj c"
  shows "cursor_inv_obj (snd (deleteCharacterAtCursor_obj c))"
proof -
  from assms(1) obtain e where wf: "wellFormed (objects c)"
    and rt: "root_obj c < expressionCount (objects c)" and ix: "indexed (path_obj c)"
    and r: "resolvePath_obj (objects c) (path_obj c) (root_obj c) = Some e"
    and b: "0 \<le> cursorIndex_obj c" "cursorIndex_obj c \<le> int (length (nodesOf (objects c) e))"
    by (rule cursor_inv_objE)
  have g: "getEnclosingExpression_obj c = Inr (Some e)" using ix r by (rule getEnclosing_obj_inv)
  show ?thesis
  proof (cases "cursorIndex_obj c = 0")
    case True
    then have "removeNthNode_obj (cursorIndex_obj c - 1) e (objects c) = Inl OutOfBounds"
      by (simp add: removeNthNode_obj_out)
    then show ?thesis using assms by (simp add: deleteCharacterAtCursor_obj_def g)
  next
    case False
    then have pos: "0 < cursorIndex_obj c" using b by simp
    let ?xs = "array_splice (cursorIndex_obj c - 1) 1 [] (nodesOf (objects c) e)"
    have rm: "removeNthNode_obj (cursorIndex_obj c - 1) e (objects c) =
        Inr ((objects c)\<lparr>nodesOf := (nodesOf (objects c))(e := ?xs)\<rparr>)"
      by (rule removeNthNode_obj_ok) (use pos b in simp_all)
    have wf': "wellFormed ((objects c)\<lparr>nodesOf := (nodesOf (objects c))(e := ?xs)\<rparr>)"
      using wf by (rule wellFormed_remove) (rule set_splice_remove)
    have len: "length ?xs = length (nodesOf (objects c) e) - 1"
      by (rule length_splice_remove) (use pos b in simp_all)
    have "cursor_inv_obj
        (c\<lparr>objects := (objects c)\<lparr>nodesOf := (nodesOf (objects c))(e := ?xs)\<rparr>,
           cursorIndex_obj := cursorIndex_obj c - 1\<rparr>)"
      by (rule store_update_inv[OF wf rt ix r wf']) (use pos b len in simp_all)
    then show ?thesis by (simp add: deleteCharacterAtCursor_obj_def g rm Let_def)
  qed
qed

lemma removeEnclosingNode_obj_inv:
  assumes "cursor_inv_obj c" "path_obj c \<noteq> []"
  shows "cursor_inv_obj (snd (removeEnclosingNode_obj c))"
proof -
  from assms(1) obtain e where wf: "wellFormed (objects c)"
    and rt: "root_obj c < expressionCount (objects c)" and ix: "indexed (path_obj c)"
    and r: "resolvePath_obj (objects c) (path_obj c) (root_obj c) = Some e"
    by (rule cursor_inv_objE)
  from r assms(2) obtain e1 n where
    e1: "resolvePath_obj (objects c) (butlast (path_obj c)) (root_obj c) = Some e1"
    and n: "nth_js (nodesOf (objects c) e1) (nodeIndex (last (path_obj c))) = Some n"
    by (rule resolvePath_obj_butlast)
  let ?c1 = "c\<lparr>path_obj := butlast (path_obj c)\<rparr>"
  let ?k = "nodeIndex (last (path_obj c))"
  let ?xs = "array_splice ?k 1 [] (nodesOf (objects c) e1)"
  have kb: "0 \<le> ?k" "?k < int (length (nodesOf (objects c) e1))"
    using n by (simp_all add: nth_js_Some_iff)
  have ix1: "indexed (path_obj ?c1)" using ix by (simp add: indexed_butlast)
  have r1: "resolvePath_obj (objects ?c1) (path_obj ?c1) (root_obj ?c1) = Some e1" using e1 by simp
  have g: "getEnclosingExpression_obj ?c1 = Inr (Some e1)" using ix1 r1 by (rule getEnclosing_obj_inv)
  have rm: "removeNthNode_obj ?k e1 (objects c) =
      Inr ((objects c)\<lparr>nodesOf := (nodesOf (objects c))(e1 := ?xs)\<rparr>)"
    using kb by (rule removeNthNode_obj_ok)
  have wf': "wellFormed ((objects ?c1)\<lparr>nodesOf := (nodesOf (objects ?c1))(e1 := ?xs)\<rparr>)"
    using wf by (simp add: wellFormed_remove set_splice_remove)
  have len: "length ?xs = length (nodesOf (objects c) e1) - 1"
    using kb by (rule length_splice_remove)
  have "cursor_inv_obj
        (?c1\<lparr>objects := (objects ?c1)\<lparr>nodesOf := (nodesOf (objects ?c1))(e1 := ?xs)\<rparr>,
           cursorIndex_obj := ?k\<rparr>)"
    by (rule store_update_inv[OF _ _ ix1 r1 wf']) (use wf rt kb len in simp_all)
  then show ?thesis
    using assms(2) by (simp add: removeEnclosingNode_obj_def atRoot_obj_def pop_obj_def g rm)
qed

lemma moveRight_obj_ok:
  assumes ix: "indexed (path_obj c)"
    and r: "resolvePath_obj (objects c) (path_obj c) (root_obj c) = Some e"
    and b: "0 \<le> cursorIndex_obj c" "cursorIndex_obj c \<le> int (length (nodesOf (objects c) e))"
  shows "moveRight_obj c =
    (Inr (),
     notifyUpdates_obj
      (if cursorIndex_obj c = int (length (nodesOf (objects c) e)) then
         (if path_obj c \<noteq> [] then snd (leaveNode_obj Right c) else c)
       else if childrenOf (objects c) (nodesOf (objects c) e ! nat (cursorIndex_obj c)) \<noteq> []
         then snd (enterNode_obj (cursorIndex_obj c) 0 Right c)
         else c\<lparr>cursorIndex_obj := cursorIndex_obj c + 1\<rparr>))"
proof -
  have g: "getEnclosingExpression_obj c = Inr (Some e)" using ix r by (rule getEnclosing_obj_inv)
  show ?thesis
  proof (cases "cursorIndex_obj c = int (length (nodesOf (objects c) e))")
    case True
    then show ?thesis
      by (cases "path_obj c = []")
         (simp_all add: moveRight_obj_def g atRoot_obj_def leaveNode_obj_ok)
  next
    case False
    then have nj: "nth_js (nodesOf (objects c) e) (cursorIndex_obj c) =
        Some (nodesOf (objects c) e ! nat (cursorIndex_obj c))"
      using b by (simp add: nth_js_def)
    show ?thesis
    proof (cases "childrenOf (objects c) (nodesOf (objects c) e ! nat (cursorIndex_obj c)) = []")
      case True
      then show ?thesis using False by (simp add: moveRight_obj_def g nj)
    next
      case nonempty: False
      then have "nth_js (childrenOf (objects c) (nodesOf (objects c) e ! nat (cursorIndex_obj c))) 0 =
          Some (childrenOf (objects c) (nodesOf (objects c) e ! nat (cursorIndex_obj c)) ! 0)"
        by (simp add: nth_js_def)
      from enterNode_obj_ok[OF ix r nj this, of Right] show ?thesis
        using False nonempty by (simp add: moveRight_obj_def g nj)
    qed
  qed
qed

lemma moveLeft_obj_ok:
  assumes ix: "indexed (path_obj c)"
    and r: "resolvePath_obj (objects c) (path_obj c) (root_obj c) = Some e"
    and b: "0 \<le> cursorIndex_obj c" "cursorIndex_obj c \<le> int (length (nodesOf (objects c) e))"
  shows "moveLeft_obj c =
    (Inr (),
     notifyUpdates_obj
      (if cursorIndex_obj c = 0 then
         (if path_obj c \<noteq> [] then snd (leaveNode_obj Left c) else c)
       else if childrenOf (objects c) (nodesOf (objects c) e ! nat (cursorIndex_obj c - 1)) \<noteq> []
         then snd (enterNode_obj (cursorIndex_obj c - 1) 0 Left c)
         else c\<lparr>cursorIndex_obj := cursorIndex_obj c - 1\<rparr>))"
proof -
  have g: "getEnclosingExpression_obj c = Inr (Some e)" using ix r by (rule getEnclosing_obj_inv)
  show ?thesis
  proof (cases "cursorIndex_obj c = 0")
    case True
    then show ?thesis
      by (cases "path_obj c = []")
         (simp_all add: moveLeft_obj_def g atRoot_obj_def leaveNode_obj_ok)
  next
    case False
    then have nj: "nth_js (nodesOf (objects c) e) (cursorIndex_obj c - 1) =
        Some (nodesOf (objects c) e ! nat (cursorIndex_obj c - 1))"
      using b by (simp add: nth_js_def)
    show ?thesis
    proof (cases "childrenOf (objects c) (nodesOf (objects c) e ! nat (cursorIndex_obj c - 1)) = []")
      case True
      then show ?thesis using False by (simp add: moveLeft_obj_def g nj)
    next
      case nonempty: False
      then have "nth_js (childrenOf (objects c) (nodesOf (objects c) e ! nat (cursorIndex_obj c - 1))) 0 =
          Some (childrenOf (objects c) (nodesOf (objects c) e ! nat (cursorIndex_obj c - 1)) ! 0)"
        by (simp add: nth_js_def)
      from enterNode_obj_ok[OF ix r nj this, of Left] show ?thesis
        using False nonempty by (simp add: moveLeft_obj_def g nj)
    qed
  qed
qed

lemma cursor_inv_obj_index:
  assumes "cursor_inv_obj c"
    "resolvePath_obj (objects c) (path_obj c) (root_obj c) = Some e"
    "0 \<le> k" "k \<le> int (length (nodesOf (objects c) e))"
  shows "cursor_inv_obj (c\<lparr>cursorIndex_obj := k\<rparr>)"
  using assms by (simp add: cursor_inv_obj_def)

lemma moveRight_obj_inv:
  assumes "cursor_inv_obj c"
  shows "cursor_inv_obj (snd (moveRight_obj c))"
proof -
  from assms(1) obtain e where ix: "indexed (path_obj c)"
    and r: "resolvePath_obj (objects c) (path_obj c) (root_obj c) = Some e"
    and b: "0 \<le> cursorIndex_obj c" "cursorIndex_obj c \<le> int (length (nodesOf (objects c) e))"
    by (rule cursor_inv_objE)
  let ?n = "nodesOf (objects c) e ! nat (cursorIndex_obj c)"
  have 1: "path_obj c \<noteq> [] \<Longrightarrow> cursor_inv_obj (snd (leaveNode_obj Right c))"
    using assms by (rule leaveNode_obj_inv)
  have 2: "cursor_inv_obj (snd (enterNode_obj (cursorIndex_obj c) 0 Right c))"
    if "cursorIndex_obj c \<noteq> int (length (nodesOf (objects c) e))" "childrenOf (objects c) ?n \<noteq> []"
    by (rule enterNode_obj_inv[OF assms r, where n = ?n and ch = "childrenOf (objects c) ?n ! 0"])
       (use that b in \<open>simp_all add: nth_js_def\<close>)
  have 3: "cursor_inv_obj (c\<lparr>cursorIndex_obj := cursorIndex_obj c + 1\<rparr>)"
    if "cursorIndex_obj c \<noteq> int (length (nodesOf (objects c) e))"
    by (rule cursor_inv_obj_index[OF assms r]) (use that b in simp_all)
  show ?thesis
    unfolding moveRight_obj_ok[OF ix r b] using 1 2 3 assms by simp
qed

lemma moveLeft_obj_inv:
  assumes "cursor_inv_obj c"
  shows "cursor_inv_obj (snd (moveLeft_obj c))"
proof -
  from assms(1) obtain e where ix: "indexed (path_obj c)"
    and r: "resolvePath_obj (objects c) (path_obj c) (root_obj c) = Some e"
    and b: "0 \<le> cursorIndex_obj c" "cursorIndex_obj c \<le> int (length (nodesOf (objects c) e))"
    by (rule cursor_inv_objE)
  let ?n = "nodesOf (objects c) e ! nat (cursorIndex_obj c - 1)"
  have 1: "path_obj c \<noteq> [] \<Longrightarrow> cursor_inv_obj (snd (leaveNode_obj Left c))"
    using assms by (rule leaveNode_obj_inv)
  have 2: "cursor_inv_obj (snd (enterNode_obj (cursorIndex_obj c - 1) 0 Left c))"
    if "cursorIndex_obj c \<noteq> 0" "childrenOf (objects c) ?n \<noteq> []"
    by (rule enterNode_obj_inv[OF assms r, where n = ?n and ch = "childrenOf (objects c) ?n ! 0"])
       (use that b in \<open>simp_all add: nth_js_def\<close>)
  have 3: "cursor_inv_obj (c\<lparr>cursorIndex_obj := cursorIndex_obj c - 1\<rparr>)"
    if "cursorIndex_obj c \<noteq> 0"
    by (rule cursor_inv_obj_index[OF assms r]) (use that b in simp_all)
  show ?thesis
    unfolding moveLeft_obj_ok[OF ix r b] using 1 2 3 assms by simp
qed

lemma vertical_obj_prelude:
  assumes ix: "indexed (path_obj c)" and ne: "path_obj c \<noteq> []"
    and e1: "resolvePath_obj (objects c) (butlast (path_obj c)) (root_obj c) = Some e1"
    and n: "nth_js (nodesOf (objects c) e1) (nodeIndex (last (path_obj c))) = Some n"
  shows "getTopLevelLink_obj c = Inr (last (path_obj c))"
    and "resolveLinkInfo_obj c (last (path_obj c)) =
           Inr \<lparr>enclosingExpression_obj =
                  nth_js (childrenOf (objects c) n) (childIndex (last (path_obj c))),
                enclosingNode_obj = Some n\<rparr>"
proof -
  show "getTopLevelLink_obj c = Inr (last (path_obj c))"
    using ne by (simp add: getTopLevelLink_obj_def atRoot_obj_def)
  show "resolveLinkInfo_obj c (last (path_obj c)) =
           Inr \<lparr>enclosingExpression_obj =
                  nth_js (childrenOf (objects c) n) (childIndex (last (path_obj c))),
                enclosingNode_obj = Some n\<rparr>"
    unfolding resolveLinkInfo_obj_top[OF ix ne] using e1 n by simp
qed

lemma moveDown_obj_ok:
  assumes ix: "indexed (path_obj c)" and ne: "path_obj c \<noteq> []"
    and e1: "resolvePath_obj (objects c) (butlast (path_obj c)) (root_obj c) = Some e1"
    and n: "nth_js (nodesOf (objects c) e1) (nodeIndex (last (path_obj c))) = Some n"
  shows "moveDown_obj c =
     (if childIndex (last (path_obj c)) < int (length (childrenOf (objects c) n)) - 1
      then enterNode_obj (nodeIndex (last (path_obj c))) (childIndex (last (path_obj c)) + 1) Left
             (snd (leaveNode_obj Left c))
      else (Inr (), c))"
  using ne vertical_obj_prelude[OF assms]
  by (simp add: moveDown_obj_def atRoot_obj_def leaveNode_obj_ok Let_def)

lemma moveUp_obj_ok:
  assumes ix: "indexed (path_obj c)" and ne: "path_obj c \<noteq> []"
    and e1: "resolvePath_obj (objects c) (butlast (path_obj c)) (root_obj c) = Some e1"
    and n: "nth_js (nodesOf (objects c) e1) (nodeIndex (last (path_obj c))) = Some n"
  shows "moveUp_obj c =
     (if childIndex (last (path_obj c)) > 0
      then enterNode_obj (nodeIndex (last (path_obj c))) (childIndex (last (path_obj c)) - 1) Right
             (snd (leaveNode_obj Left c))
      else (Inr (), c))"
  using ne vertical_obj_prelude[OF assms]
  by (simp add: moveUp_obj_def atRoot_obj_def leaveNode_obj_ok Let_def)

lemma left_obj_state:
  assumes ne: "path_obj c \<noteq> []"
  shows "path_obj (snd (leaveNode_obj Left c)) = butlast (path_obj c)"
    and "root_obj (snd (leaveNode_obj Left c)) = root_obj c"
    and "objects (snd (leaveNode_obj Left c)) = objects c"
  using assms by (simp_all add: leaveNode_obj_ok)

lemma moveDown_obj_inv:
  assumes "cursor_inv_obj c"
  shows "cursor_inv_obj (snd (moveDown_obj c))"
proof (cases "path_obj c = []")
  case True
  then show ?thesis using assms by (simp add: moveDown_obj_def atRoot_obj_def)
next
  case False
  from assms obtain e where ix: "indexed (path_obj c)"
    and r: "resolvePath_obj (objects c) (path_obj c) (root_obj c) = Some e"
    by (rule cursor_inv_objE)
  from r False obtain e1 n where
    e1: "resolvePath_obj (objects c) (butlast (path_obj c)) (root_obj c) = Some e1"
    and n: "nth_js (nodesOf (objects c) e1) (nodeIndex (last (path_obj c))) = Some n"
    and ch: "nth_js (childrenOf (objects c) n) (childIndex (last (path_obj c))) = Some e"
    by (rule resolvePath_obj_butlast)
  let ?l = "snd (leaveNode_obj Left c)"
  show ?thesis
  proof (cases "childIndex (last (path_obj c)) < int (length (childrenOf (objects c) n)) - 1")
    case True
    have "cursor_inv_obj (snd (enterNode_obj (nodeIndex (last (path_obj c)))
             (childIndex (last (path_obj c)) + 1) Left ?l))"
    proof (rule enterNode_obj_inv[where e = e1 and n = n
          and ch = "childrenOf (objects c) n ! nat (childIndex (last (path_obj c)) + 1)"])
      show "cursor_inv_obj ?l" using assms False by (rule leaveNode_obj_inv)
      show "resolvePath_obj (objects ?l) (path_obj ?l) (root_obj ?l) = Some e1"
        using e1 by (simp add: left_obj_state[OF False])
      show "nth_js (nodesOf (objects ?l) e1) (nodeIndex (last (path_obj c))) = Some n"
        using n by (simp add: left_obj_state[OF False])
      show "nth_js (childrenOf (objects ?l) n) (childIndex (last (path_obj c)) + 1) =
          Some (childrenOf (objects c) n ! nat (childIndex (last (path_obj c)) + 1))"
        using True ch by (simp add: left_obj_state[OF False] nth_js_def split: if_splits)
    qed
    then show ?thesis unfolding moveDown_obj_ok[OF ix False e1 n] using True by simp
  next
    case nomove: False
    then show ?thesis unfolding moveDown_obj_ok[OF ix False e1 n] using assms by simp
  qed
qed

lemma moveUp_obj_inv:
  assumes "cursor_inv_obj c"
  shows "cursor_inv_obj (snd (moveUp_obj c))"
proof (cases "path_obj c = []")
  case True
  then show ?thesis using assms by (simp add: moveUp_obj_def atRoot_obj_def)
next
  case False
  from assms obtain e where ix: "indexed (path_obj c)"
    and r: "resolvePath_obj (objects c) (path_obj c) (root_obj c) = Some e"
    by (rule cursor_inv_objE)
  from r False obtain e1 n where
    e1: "resolvePath_obj (objects c) (butlast (path_obj c)) (root_obj c) = Some e1"
    and n: "nth_js (nodesOf (objects c) e1) (nodeIndex (last (path_obj c))) = Some n"
    and ch: "nth_js (childrenOf (objects c) n) (childIndex (last (path_obj c))) = Some e"
    by (rule resolvePath_obj_butlast)
  let ?l = "snd (leaveNode_obj Left c)"
  show ?thesis
  proof (cases "childIndex (last (path_obj c)) > 0")
    case True
    have "cursor_inv_obj (snd (enterNode_obj (nodeIndex (last (path_obj c)))
             (childIndex (last (path_obj c)) - 1) Right ?l))"
    proof (rule enterNode_obj_inv[where e = e1 and n = n
          and ch = "childrenOf (objects c) n ! nat (childIndex (last (path_obj c)) - 1)"])
      show "cursor_inv_obj ?l" using assms False by (rule leaveNode_obj_inv)
      show "resolvePath_obj (objects ?l) (path_obj ?l) (root_obj ?l) = Some e1"
        using e1 by (simp add: left_obj_state[OF False])
      show "nth_js (nodesOf (objects ?l) e1) (nodeIndex (last (path_obj c))) = Some n"
        using n by (simp add: left_obj_state[OF False])
      show "nth_js (childrenOf (objects ?l) n) (childIndex (last (path_obj c)) - 1) =
          Some (childrenOf (objects c) n ! nat (childIndex (last (path_obj c)) - 1))"
        using True ch by (simp add: left_obj_state[OF False] nth_js_def split: if_splits)
    qed
    then show ?thesis unfolding moveUp_obj_ok[OF ix False e1 n] using True by simp
  next
    case nomove: False
    then show ?thesis unfolding moveUp_obj_ok[OF ix False e1 n] using assms by simp
  qed
qed

lemma newCursor_obj_inv:
  "wellFormed s \<Longrightarrow> r < expressionCount s \<Longrightarrow> cursor_inv_obj (newCursor_obj s r)"
  by (simp add: cursor_inv_obj_def newCursor_obj_def indexed_def)

lemma reach_inv:
  assumes "reach apartNode c"
  shows "cursor_inv_obj c"
  using assms
proof (induction rule: reach.induct)
  case (initial s r)
  then show ?case by (rule newCursor_obj_inv)
next
  case (construct c fresh k)
  then show ?case by (simp add: construct_inv)
next
  case (enterNode c e ni n ci ch dir)
  from enterNode.IH have ix: "indexed (path_obj c)" by (auto elim: cursor_inv_objE)
  from enterNode.hyps(2) have "resolvePath_obj (objects c) (path_obj c) (root_obj c) = Some e"
    using ix by (simp add: getEnclosingExpression_obj_iff)
  with enterNode.IH show ?case using enterNode.hyps(3,4) by (rule enterNode_obj_inv)
next
  case (leaveNode c dir)
  then show ?case by (simp add: leaveNode_obj_inv atRoot_obj_def)
next
  case (removeEnclosingNode c)
  then show ?case by (simp add: removeEnclosingNode_obj_inv atRoot_obj_def)
next
  case (deleteCharacterAtCursor c)
  then show ?case by (simp add: deleteCharacterAtCursor_obj_inv)
next
  case (moveRight c)
  then show ?case by (simp add: moveRight_obj_inv)
next
  case (moveLeft c)
  then show ?case by (simp add: moveLeft_obj_inv)
next
  case (moveUp c)
  then show ?case by (simp add: moveUp_obj_inv)
next
  case (moveDown c)
  then show ?case by (simp add: moveDown_obj_inv)
next
  case (insertCharacterAtCursor c character fresh)
  then show ?case by (simp add: insertCharacterAtCursor_obj_inv)
next
  case (insertNodeAtCursor c node)
  then show ?case by (simp add: insertNodeAtCursor_obj_inv)
next
  case (onUpdate c cb)
  then show ?case by (simp add: cursor_inv_obj_def split: option.splits)
qed

subsection \<open>Nodes that may be inserted\<close>

lemma apartNode_fresh:
  assumes "node < nodeCount (objects c)" "getEnclosingExpression_obj c = Inr (Some e)"
    and "\<forall>ch \<in> set (childrenOf (objects c) node). ch \<noteq> e \<and> nodesOf (objects c) ch = []"
  shows "apartNode c node"
proof -
  have "(e, ch) \<notin> (below (objects c))\<^sup>*" if "ch \<in> set (childrenOf (objects c) node)" for ch
  proof
    assume "(e, ch) \<in> (below (objects c))\<^sup>*"
    then show False
    proof (cases rule: rtranclE)
      case base
      then show ?thesis using assms(3) that by auto
    next
      case (step y)
      then have "nodesOf (objects c) ch \<noteq> []" by (auto simp: below_def)
      then show ?thesis using assms(3) that by auto
    qed
  qed
  then show ?thesis using assms(1,2) by (auto simp: apartNode_def)
qed

lemma apartNode_constructed:
  assumes "cursor_inv_obj c"
  shows "apartNode (construct fresh k c) (nodeCount (objects c))"
proof -
  from assms(1) obtain e where wf: "wellFormed (objects c)"
    and rt: "root_obj c < expressionCount (objects c)" and ix: "indexed (path_obj c)"
    and r: "resolvePath_obj (objects c) (path_obj c) (root_obj c) = Some e"
    by (rule cursor_inv_objE)
  let ?c = "construct fresh k c"
  have e: "e < expressionCount (objects c)" using wf r rt by (rule resolve_allocated)
  have "resolvePath_obj (objects ?c) (path_obj ?c) (root_obj ?c) = Some e"
    using construct_resolve[OF wf rt, of fresh k "path_obj c"] r by simp
  then have g: "getEnclosingExpression_obj ?c = Inr (Some e)"
    using ix by (simp add: getEnclosingExpression_obj_iff)
  show ?thesis
  proof (rule apartNode_fresh[OF _ g])
    show "nodeCount (objects c) < nodeCount (objects ?c)" by (simp add: new_MathNode_simps)
    show "\<forall>ch\<in>set (childrenOf (objects ?c) (nodeCount (objects c))).
        ch \<noteq> e \<and> nodesOf (objects ?c) ch = []"
      using e by (auto simp: new_MathNode_def Let_def)
  qed
qed

subsection \<open>The example states on the store\<close>

lemma wellFormed_emptyDocument: "wellFormed emptyDocument"
  by (simp add: wellFormed_def below_def emptyDocument_def acyclic_def)

lemma reach_fractionMade: "reach adm fractionMade"
  unfolding fractionMade_def
  by (intro reach.construct reach.initial wellFormed_emptyDocument) (simp add: emptyDocument_def)

lemma reach_selfInserted: "reach anyNode selfInserted"
proof -
  have 1: "reach anyNode fractionPlaced"
    unfolding fractionPlaced_def
  proof (rule reach.insertNodeAtCursor[OF reach_fractionMade])
    show "anyNode fractionMade 0" by code_simp
  qed
  have 2: "reach anyNode insideFraction"
    unfolding insideFraction_def
  proof (rule reach.enterNode[OF 1, where e = 0 and n = 0 and ch = 1])
    show "getEnclosingExpression_obj fractionPlaced = Inr (Some 0)" by code_simp
    show "nth_js (nodesOf (objects fractionPlaced) 0) 0 = Some 0" by code_simp
    show "nth_js (childrenOf (objects fractionPlaced) 0) 0 = Some 1" by code_simp
  qed
  have 3: "reach anyNode fractionInItself"
    unfolding fractionInItself_def
  proof (rule reach.insertNodeAtCursor[OF 2])
    show "anyNode insideFraction 0" by code_simp
  qed
  have 4: "reach anyNode insideTwice"
    unfolding insideTwice_def
  proof (rule reach.enterNode[OF 3, where e = 1 and n = 0 and ch = 1])
    show "getEnclosingExpression_obj fractionInItself = Inr (Some 1)" by code_simp
    show "nth_js (nodesOf (objects fractionInItself) 1) 0 = Some 0" by code_simp
    show "nth_js (childrenOf (objects fractionInItself) 0) 0 = Some 1" by code_simp
  qed
  show ?thesis unfolding selfInserted_def using 4 by (rule reach.insertCharacterAtCursor)
qed

lemma reach_bracketMade: "reach adm bracketMade"
  unfolding bracketMade_def
  by (intro reach.construct reach.initial wellFormed_emptyDocument) (simp add: emptyDocument_def)

lemma reach_sharedBracket: "reach apartNode sharedBracket"
proof -
  have 1: "reach apartNode bracketPlaced"
    unfolding bracketPlaced_def
  proof (rule reach.insertNodeAtCursor[OF reach_bracketMade])
    show "apartNode bracketMade 0"
    proof (rule apartNode_fresh[where e = 0])
      show "0 < nodeCount (objects bracketMade)" by code_simp
      show "getEnclosingExpression_obj bracketMade = Inr (Some 0)" by code_simp
      have "childrenOf (objects bracketMade) 0 = [1]" by code_simp
      moreover have "nodesOf (objects bracketMade) 1 = []" by code_simp
      ultimately show "\<forall>ch\<in>set (childrenOf (objects bracketMade) 0).
          ch \<noteq> 0 \<and> nodesOf (objects bracketMade) ch = []" by simp
    qed
  qed
  have 2: "reach apartNode bracketTwice"
    unfolding bracketTwice_def
  proof (rule reach.insertNodeAtCursor[OF 1])
    show "apartNode bracketPlaced 0"
    proof (rule apartNode_fresh[where e = 0])
      show "0 < nodeCount (objects bracketPlaced)" by code_simp
      show "getEnclosingExpression_obj bracketPlaced = Inr (Some 0)" by code_simp
      have "childrenOf (objects bracketPlaced) 0 = [1]" by code_simp
      moreover have "nodesOf (objects bracketPlaced) 1 = []" by code_simp
      ultimately show "\<forall>ch\<in>set (childrenOf (objects bracketPlaced) 0).
          ch \<noteq> 0 \<and> nodesOf (objects bracketPlaced) ch = []" by simp
    qed
  qed
  have 3: "reach apartNode insideSecond"
    unfolding insideSecond_def
  proof (rule reach.enterNode[OF 2, where e = 0 and n = 0 and ch = 1])
    show "getEnclosingExpression_obj bracketTwice = Inr (Some 0)" by code_simp
    show "nth_js (nodesOf (objects bracketTwice) 0) 1 = Some 0" by code_simp
    show "nth_js (childrenOf (objects bracketTwice) 0) 0 = Some 1" by code_simp
  qed
  show ?thesis unfolding sharedBracket_def using 3 by (rule reach.insertCharacterAtCursor)
qed

section \<open>The claims\<close>

subsection \<open>The cursor invariant\<close>

text \<open>
  Claim C1 says that in every state reachable from a new cursor by the public operations
  under their stated preconditions the cursor index lies within the enclosing expression
  and every link of the path names a node and a child expression that exist. The stated
  preconditions put no condition on the node that \<^verbatim>\<open>insertNodeAtCursor\<close> is given, and the
  method stores the very object. Starting from an empty document: construct a fraction,
  insert it, enter its numerator, insert the same fraction object there, enter its
  numerator again, and type a character. The numerator now holds the character and the
  fraction, and the second link of the path, which named the fraction, names the
  character, which has no child: the path does not lead to an expression any more, and
  \<^verbatim>\<open>getEnclosingExpression\<close> returns \<^verbatim>\<open>undefined\<close>.
\<close>

theorem cursor_invariant_counterexample:
  "reach anyNode selfInserted \<and>
   path_obj selfInserted =
     [\<lparr>nodeIndex = 0, childIndex = 0, link_i = 0\<rparr>, \<lparr>nodeIndex = 0, childIndex = 0, link_i = 1\<rparr>] \<and>
   getEnclosingExpression_obj selfInserted = Inr None \<and>
   getEnclosingExpression_obj (selfInserted\<lparr>path_obj := take 1 (path_obj selfInserted)\<rparr>) =
     Inr (Some 1) \<and>
   nth_js (nodesOf (objects selfInserted) 1) (nodeIndex (path_obj selfInserted ! 1)) = Some 1 \<and>
   nth_js (childrenOf (objects selfInserted) 1) (childIndex (path_obj selfInserted ! 1)) = None"
proof -
  have 1: "path_obj selfInserted =
     [\<lparr>nodeIndex = 0, childIndex = 0, link_i = 0\<rparr>, \<lparr>nodeIndex = 0, childIndex = 0, link_i = 1\<rparr>]"
    by code_simp
  have 2: "getEnclosingExpression_obj selfInserted = Inr None" by code_simp
  have 3: "getEnclosingExpression_obj (selfInserted\<lparr>path_obj := take 1 (path_obj selfInserted)\<rparr>) =
     Inr (Some 1)" by code_simp
  have 4: "nth_js (nodesOf (objects selfInserted) 1) (nodeIndex (path_obj selfInserted ! 1)) = Some 1"
    by code_simp
  have 5: "nth_js (childrenOf (objects selfInserted) 1) (childIndex (path_obj selfInserted ! 1)) = None"
    by code_simp
  show ?thesis using reach_selfInserted 1 2 3 4 5 by blast
qed

text \<open>
  Claim C1, amended. Let the store be well formed when the cursor is created (no expression
  lies inside a child expression of one of its own nodes), and let \<^verbatim>\<open>insertNodeAtCursor\<close>
  only be given a constructed node none of whose child expressions is the cursor's
  enclosing expression or contains it, as is the case for every node that has just been
  constructed. Then in every state reachable by the public operations under their
  preconditions, the cursor index lies between 0 and the length of the enclosing
  expression, and every link of the path names a node that exists in the expression the
  shorter prefix of the path leads to, and a child expression that this node has; and the
  node the host constructs next is one that may be inserted. The same node object may be
  stored at several places.
\<close>

theorem cursor_invariant:
  assumes "reach apartNode c"
  shows "(\<exists>e. getEnclosingExpression_obj c = Inr (Some e) \<and>
              0 \<le> cursorIndex_obj c \<and>
              cursorIndex_obj c \<le> int (length (nodesOf (objects c) e))) \<and>
         (\<forall>k < length (path_obj c). \<exists>e n ch.
              getEnclosingExpression_obj (c\<lparr>path_obj := take k (path_obj c)\<rparr>) = Inr (Some e) \<and>
              nth_js (nodesOf (objects c) e) (nodeIndex (path_obj c ! k)) = Some n \<and>
              nth_js (childrenOf (objects c) n) (childIndex (path_obj c ! k)) = Some ch) \<and>
         (\<forall>fresh kind. apartNode (construct fresh kind c) (nodeCount (objects c)))"
proof -
  from assms have inv: "cursor_inv_obj c" by (rule reach_inv)
  then obtain e where ix: "indexed (path_obj c)"
    and r: "resolvePath_obj (objects c) (path_obj c) (root_obj c) = Some e"
    and b: "0 \<le> cursorIndex_obj c" "cursorIndex_obj c \<le> int (length (nodesOf (objects c) e))"
    by (rule cursor_inv_objE)
  have 1: "\<exists>e. getEnclosingExpression_obj c = Inr (Some e) \<and>
              0 \<le> cursorIndex_obj c \<and>
              cursorIndex_obj c \<le> int (length (nodesOf (objects c) e))"
    using getEnclosing_obj_inv[OF ix r] b by blast
  have 2: "\<exists>e n ch.
              getEnclosingExpression_obj (c\<lparr>path_obj := take k (path_obj c)\<rparr>) = Inr (Some e) \<and>
              nth_js (nodesOf (objects c) e) (nodeIndex (path_obj c ! k)) = Some n \<and>
              nth_js (childrenOf (objects c) n) (childIndex (path_obj c ! k)) = Some ch"
    if "k < length (path_obj c)" for k
  proof -
    from r that obtain ek n ch where
      ek: "resolvePath_obj (objects c) (take k (path_obj c)) (root_obj c) = Some ek"
      and n: "nth_js (nodesOf (objects c) ek) (nodeIndex (path_obj c ! k)) = Some n"
      and ch: "nth_js (childrenOf (objects c) n) (childIndex (path_obj c ! k)) = Some ch"
      by (rule resolvePath_obj_prefix)
    have "getEnclosingExpression_obj (c\<lparr>path_obj := take k (path_obj c)\<rparr>) = Inr (Some ek)"
      using ek ix by (simp add: getEnclosingExpression_obj_iff indexed_take)
    then show ?thesis using n ch by blast
  qed
  have 3: "apartNode (construct fresh kind c) (nodeCount (objects c))" for fresh kind
    using inv by (rule apartNode_constructed)
  show ?thesis using 1 2 3 by blast
qed

text \<open>
  A bracket object inserted twice, with the cursor in the child of its second occurrence
  after a character was typed there: the path resolves, through the shared object, and a
  fraction constructed now may be inserted.
\<close>

theorem cursor_invariant_witness:
  "reach apartNode sharedBracket \<and>
   nodesOf (objects sharedBracket) 0 = [0, 0] \<and>
   path_obj sharedBracket = [\<lparr>nodeIndex = 1, childIndex = 0, link_i = 0\<rparr>] \<and>
   getEnclosingExpression_obj sharedBracket = Inr (Some 1) \<and>
   cursorIndex_obj sharedBracket = 1 \<and>
   length (nodesOf (objects sharedBracket) 1) = 1 \<and>
   (\<exists>e n ch.
      getEnclosingExpression_obj (sharedBracket\<lparr>path_obj := take 0 (path_obj sharedBracket)\<rparr>)
        = Inr (Some e) \<and>
      nth_js (nodesOf (objects sharedBracket) e) (nodeIndex (path_obj sharedBracket ! 0)) = Some n \<and>
      nth_js (childrenOf (objects sharedBracket) n) (childIndex (path_obj sharedBracket ! 0))
        = Some ch) \<and>
   nodeCount (objects sharedBracket) = 2 \<and>
   apartNode (construct ''g'' Fraction sharedBracket) 2"
proof -
  have sh: "nodesOf (objects sharedBracket) 0 = [0, 0]" by code_simp
  have p: "path_obj sharedBracket = [\<lparr>nodeIndex = 1, childIndex = 0, link_i = 0\<rparr>]" by code_simp
  have g: "getEnclosingExpression_obj sharedBracket = Inr (Some 1)" by code_simp
  have ci: "cursorIndex_obj sharedBracket = 1" by code_simp
  have len: "length (nodesOf (objects sharedBracket) 1) = 1" by code_simp
  have l: "0 < length (path_obj sharedBracket)" by (simp add: p)
  from cursor_invariant[OF reach_sharedBracket, THEN conjunct2, THEN conjunct1] l
  have "\<exists>e n ch.
      getEnclosingExpression_obj (sharedBracket\<lparr>path_obj := take 0 (path_obj sharedBracket)\<rparr>)
        = Inr (Some e) \<and>
      nth_js (nodesOf (objects sharedBracket) e) (nodeIndex (path_obj sharedBracket ! 0)) = Some n \<and>
      nth_js (childrenOf (objects sharedBracket) n) (childIndex (path_obj sharedBracket ! 0))
        = Some ch"
    by blast
  moreover have nc: "nodeCount (objects sharedBracket) = 2" by code_simp
  moreover have "apartNode (construct ''g'' Fraction sharedBracket) 2"
    using cursor_invariant[OF reach_sharedBracket, THEN conjunct2, THEN conjunct2,
        THEN spec, THEN spec, of "''g''" Fraction]
    unfolding nc .
  ultimately show ?thesis using reach_sharedBracket sh p g ci len by blast
qed

subsection \<open>Right, then left\<close>

text \<open>
  Claim C2 says that \<^verbatim>\<open>moveRight\<close> followed by \<^verbatim>\<open>moveLeft\<close>, neither of them a no-op,
  brings the cursor back to the path and the position it started from. At the end of the
  denominator of a fraction it does not: \<^verbatim>\<open>moveRight\<close> leaves the fraction, and
  \<^verbatim>\<open>moveLeft\<close> enters the first child of the node before the cursor, the numerator.
\<close>

theorem right_then_left_counterexample:
  "reachable inDenominator \<and>
   (path (snd (moveRight inDenominator)), cursorIndex (snd (moveRight inDenominator)))
      \<noteq> (path inDenominator, cursorIndex inDenominator) \<and>
   (path (snd (moveLeft (snd (moveRight inDenominator)))),
    cursorIndex (snd (moveLeft (snd (moveRight inDenominator)))))
      \<noteq> (path (snd (moveRight inDenominator)), cursorIndex (snd (moveRight inDenominator))) \<and>
   path inDenominator = [\<lparr>nodeIndex = 0, childIndex = 1, link_i = 0\<rparr>] \<and>
   cursorIndex inDenominator = 2 \<and>
   path (snd (moveLeft (snd (moveRight inDenominator)))) = [\<lparr>nodeIndex = 0, childIndex = 0, link_i = 0\<rparr>] \<and>
   cursorIndex (snd (moveLeft (snd (moveRight inDenominator)))) = 1 \<and>
   \<not> (path (snd (moveLeft (snd (moveRight inDenominator)))) = path inDenominator \<and>
      cursorIndex (snd (moveLeft (snd (moveRight inDenominator)))) = cursorIndex inDenominator)"
proof -
  have 1: "(path (snd (moveRight inDenominator)), cursorIndex (snd (moveRight inDenominator)))
      \<noteq> (path inDenominator, cursorIndex inDenominator)"
    by code_simp
  have 2: "(path (snd (moveLeft (snd (moveRight inDenominator)))),
    cursorIndex (snd (moveLeft (snd (moveRight inDenominator)))))
      \<noteq> (path (snd (moveRight inDenominator)), cursorIndex (snd (moveRight inDenominator)))"
    by code_simp
  have 3: "path inDenominator = [\<lparr>nodeIndex = 0, childIndex = 1, link_i = 0\<rparr>]" by code_simp
  have 4: "cursorIndex inDenominator = 2" by code_simp
  have 5: "path (snd (moveLeft (snd (moveRight inDenominator)))) = [\<lparr>nodeIndex = 0, childIndex = 0, link_i = 0\<rparr>]"
    by code_simp
  have 6: "cursorIndex (snd (moveLeft (snd (moveRight inDenominator)))) = 1" by code_simp
  show ?thesis using reachable_inDenominator 1 2 3 4 5 6 by simp
qed

text \<open>
  Claim C2, amended. In a reachable state where \<^verbatim>\<open>moveRight\<close> and the \<^verbatim>\<open>moveLeft\<close> after it
  are not no-ops, the two bring the cursor back to its path and position unless the cursor
  is at the end of a child expression that is not the first child of its node; from there
  they bring it to the end of the first child of that node.
\<close>

theorem right_then_left:
  assumes "reachable c"
    and "(path (snd (moveRight c)), cursorIndex (snd (moveRight c))) \<noteq> (path c, cursorIndex c)"
    and "(path (snd (moveLeft (snd (moveRight c)))), cursorIndex (snd (moveLeft (snd (moveRight c)))))
           \<noteq> (path (snd (moveRight c)), cursorIndex (snd (moveRight c)))"
    and "getEnclosingExpression (location c) = Inr (Some e)"
  shows "(\<not> (cursorIndex c = int (length (getNodes e)) \<and> path c \<noteq> [] \<and>
             childIndex (last (path c)) \<noteq> 0) \<longrightarrow>
            path (snd (moveLeft (snd (moveRight c)))) = path c \<and>
            cursorIndex (snd (moveLeft (snd (moveRight c)))) = cursorIndex c) \<and>
         (cursorIndex c = int (length (getNodes e)) \<and> path c \<noteq> [] \<and>
             childIndex (last (path c)) \<noteq> 0 \<longrightarrow>
            path (snd (moveLeft (snd (moveRight c)))) =
              butlast (path c) @ [(last (path c))\<lparr>childIndex := 0\<rparr>] \<and>
            (\<exists>first. getEnclosingExpression (location (snd (moveLeft (snd (moveRight c)))))
                       = Inr (Some first) \<and>
               cursorIndex (snd (moveLeft (snd (moveRight c)))) = int (length (getNodes first))))"
proof -
  let ?c2 = "snd (moveLeft (snd (moveRight c)))"
  from assms(1) have inv: "cursor_inv c" by (rule reachable_inv)
  then have ix: "indexed (path c)" by (simp add: cursor_inv_def)
  have r: "resolvePath (path c) (root c) = Some e"
    using assms(4) ix by (simp add: getEnclosingExpression_iff path_def root_def)
  from inv r have b: "0 \<le> cursorIndex c" "cursorIndex c \<le> int (length (getNodes e))"
    by (simp_all add: cursor_inv_def)
  have inv2: "cursor_inv ?c2" by (intro moveLeft_inv moveRight_inv inv)
  have at_end: "path ?c2 = butlast (path c) @ [(last (path c))\<lparr>childIndex := 0\<rparr>] \<and>
      (\<exists>first. getEnclosingExpression (location ?c2) = Inr (Some first) \<and>
          cursorIndex ?c2 = int (length (getNodes first)))"
    if "end": "cursorIndex c = int (length (getNodes e))" and ne: "path c \<noteq> []"
  proof -
    from r ne obtain e1 n where e1: "resolvePath (butlast (path c)) (root c) = Some e1"
      and n: "nth_js (getNodes e1) (nodeIndex (last (path c))) = Some n"
      and ch: "nth_js (children n) (childIndex (last (path c))) = Some e"
      by (rule resolvePath_butlast)
    note rl = right_left_from_end[OF inv r "end" ne e1 n ch]
    have root2: "root ?c2 = root c"
    proof -
      have ix1: "indexed (path (snd (moveRight c)))"
        using moveRight_inv[OF inv] by (simp add: cursor_inv_def)
      have "root (snd (moveRight c)) = root c" by (rule moveRight_leave[OF ix r b "end" ne])
      moreover have "root (snd (moveLeft c')) = root c'" if "cursor_inv c'" for c'
      proof -
        from that obtain e' where ix': "indexed (path c')" and r': "resolvePath (path c') (root c') = Some e'"
          and b': "0 \<le> cursorIndex c'" "cursorIndex c' \<le> int (length (getNodes e'))"
          by (rule cursor_invE)
        have en: "root (snd (enterNode ni ci dir c')) = root c'" for ni ci dir
          by (simp add: enterNode_def Let_def root_def moveInto_def split: sum.split option.split)
        show ?thesis
          unfolding moveLeft_ok[OF ix' r' b']
          by (simp add: leaveNode_ok root_def en[unfolded root_def])
      qed
      ultimately show ?thesis using moveRight_inv[OF inv] by simp
    qed
    have kids: "children n \<noteq> []" using ch by (auto simp: nth_js_def split: if_splits)
    have "resolvePath (path ?c2) (root ?c2) = Some (children n ! 0)"
      unfolding rl(1) root2 resolvePath_snoc using e1 n kids by (simp add: nth_js_def)
    moreover have "indexed (path ?c2)" using inv2 by (simp add: cursor_inv_def)
    ultimately have "getEnclosingExpression (location ?c2) = Inr (Some (children n ! 0))"
      by (simp add: getEnclosing_inv)
    then show ?thesis using rl by simp
  qed
  have returns: "path ?c2 = path c \<and> cursorIndex ?c2 = cursorIndex c"
    if "\<not> (cursorIndex c = int (length (getNodes e)) \<and> path c \<noteq> [] \<and> childIndex (last (path c)) \<noteq> 0)"
  proof (cases "cursorIndex c = int (length (getNodes e))")
    case False
    then show ?thesis using right_left_inner[OF inv r] by simp
  next
    case True
    show ?thesis
    proof (cases "path c = []")
      case True
      from moveRight_stay[OF ix r b \<open>cursorIndex c = int (length (getNodes e))\<close> True] assms(2)
      show ?thesis by simp
    next
      case False
      with that True have c0: "childIndex (last (path c)) = 0" by simp
      from r False obtain e1 n where e1: "resolvePath (butlast (path c)) (root c) = Some e1"
        and n: "nth_js (getNodes e1) (nodeIndex (last (path c))) = Some n"
        and ch: "nth_js (children n) (childIndex (last (path c))) = Some e"
        by (rule resolvePath_butlast)
      note rl = right_left_from_end[OF inv r True False e1 n ch]
      have "children n ! 0 = e" using ch c0 by (simp add: nth_js_def split: if_splits)
      moreover have "(last (path c))\<lparr>childIndex := 0\<rparr> = last (path c)" using c0 by simp
      ultimately show ?thesis using rl True False by simp
    qed
  qed
  show ?thesis using at_end returns by blast
qed

text \<open>
  In the sample document: from the start of the numerator the cursor comes back; from the end
  of the denominator it lands in the numerator.
\<close>

theorem right_then_left_witness:
  "reachable inNumerator \<and>
   (path (snd (moveRight inNumerator)), cursorIndex (snd (moveRight inNumerator)))
      \<noteq> (path inNumerator, cursorIndex inNumerator) \<and>
   (path (snd (moveLeft (snd (moveRight inNumerator)))),
    cursorIndex (snd (moveLeft (snd (moveRight inNumerator)))))
      \<noteq> (path (snd (moveRight inNumerator)), cursorIndex (snd (moveRight inNumerator))) \<and>
   getEnclosingExpression (location inNumerator) =
      Inr (Some (MathExpression [newNode ''a'' (MathCharacter ''a'')])) \<and>
   cursorIndex inNumerator = 0 \<and>
   path (snd (moveLeft (snd (moveRight inNumerator)))) = path inNumerator \<and>
   cursorIndex (snd (moveLeft (snd (moveRight inNumerator)))) = cursorIndex inNumerator \<and>
   reachable inDenominator \<and>
   (path (snd (moveRight inDenominator)), cursorIndex (snd (moveRight inDenominator)))
      \<noteq> (path inDenominator, cursorIndex inDenominator) \<and>
   (path (snd (moveLeft (snd (moveRight inDenominator)))),
    cursorIndex (snd (moveLeft (snd (moveRight inDenominator)))))
      \<noteq> (path (snd (moveRight inDenominator)), cursorIndex (snd (moveRight inDenominator))) \<and>
   getEnclosingExpression (location inDenominator) =
      Inr (Some (MathExpression [newNode ''b'' (MathCharacter ''b''),
                                 newNode ''c'' (MathCharacter ''c'')])) \<and>
   cursorIndex inDenominator = 2 \<and>
   childIndex (last (path inDenominator)) = 1 \<and>
   path (snd (moveLeft (snd (moveRight inDenominator)))) =
     butlast (path inDenominator) @ [(last (path inDenominator))\<lparr>childIndex := 0\<rparr>]"
proof -
  have n1: "(path (snd (moveRight inNumerator)), cursorIndex (snd (moveRight inNumerator)))
      \<noteq> (path inNumerator, cursorIndex inNumerator)"
    by code_simp
  have n2: "(path (snd (moveLeft (snd (moveRight inNumerator)))),
    cursorIndex (snd (moveLeft (snd (moveRight inNumerator)))))
      \<noteq> (path (snd (moveRight inNumerator)), cursorIndex (snd (moveRight inNumerator)))"
    by code_simp
  have n3: "getEnclosingExpression (location inNumerator) =
      Inr (Some (MathExpression [newNode ''a'' (MathCharacter ''a'')]))"
    by code_simp
  have n4: "cursorIndex inNumerator = 0" by code_simp
  have n5: "path (snd (moveLeft (snd (moveRight inNumerator)))) = path inNumerator \<and>
      cursorIndex (snd (moveLeft (snd (moveRight inNumerator)))) = cursorIndex inNumerator"
    using right_then_left[OF reachable_inNumerator n1 n2 n3] n4 by simp
  have d1: "(path (snd (moveRight inDenominator)), cursorIndex (snd (moveRight inDenominator)))
      \<noteq> (path inDenominator, cursorIndex inDenominator)"
    by code_simp
  have d2: "(path (snd (moveLeft (snd (moveRight inDenominator)))),
    cursorIndex (snd (moveLeft (snd (moveRight inDenominator)))))
      \<noteq> (path (snd (moveRight inDenominator)), cursorIndex (snd (moveRight inDenominator)))"
    by code_simp
  have d3: "getEnclosingExpression (location inDenominator) =
      Inr (Some (MathExpression [newNode ''b'' (MathCharacter ''b''),
                                 newNode ''c'' (MathCharacter ''c'')]))"
    by code_simp
  have d4: "cursorIndex inDenominator = 2" by code_simp
  have d5: "path inDenominator \<noteq> []" by code_simp
  have d6: "childIndex (last (path inDenominator)) = 1" by code_simp
  have d7: "path (snd (moveLeft (snd (moveRight inDenominator)))) =
     butlast (path inDenominator) @ [(last (path inDenominator))\<lparr>childIndex := 0\<rparr>]"
    using right_then_left[OF reachable_inDenominator d1 d2 d3] d4 d5 d6 by simp
  show ?thesis
    using reachable_inNumerator n1 n2 n3 n4 n5 reachable_inDenominator d1 d2 d3 d4 d6 d7
    by blast
qed

subsection \<open>Moving between the children of a node\<close>



subsection \<open>Rendering an expression\<close>



text \<open>
  Claim C9. If the cursor's enclosing expression has no nodes and the cursor is not
  focused, that expression renders as the placeholder: the marker is the empty string, so
  the joined text is empty although the cursor is in the expression.
\<close>

theorem unfocused_empty_placeholder:
  assumes "getEnclosingExpression (location c) = Inr (Some e)" and "getNodes e = []"
    and "\<not> focused c"
  shows "renderAsLatex c = [] \<and>
         isEnclosingExpression c (cursorAddress c) = Inr True \<and>
         renderAsLaTeX c (cursorAddress c) e = Inr placeholder"
proof -
  have m: "renderAsLatex c = []" using assms(3) by (simp add: renderAsLatex_def)
  have i: "isEnclosingExpression c (cursorAddress c) = Inr True"
    using assms(1) by (simp add: isEnclosingExpression_resolved)
  have "renderNodes c (cursorAddress c) 0 (getNodes e) = Inr []" using assms(2) by simp
  from renderAsLaTeX_unfold[OF assms(1) this]
  have "renderAsLaTeX c (cursorAddress c) e = Inr placeholder"
    by (simp add: m splice_empty Let_def)
  with m i show ?thesis by simp
qed

text \<open>
  The unfocused cursor in the empty numerator of a new fraction.
\<close>

theorem unfocused_empty_placeholder_witness:
  "getEnclosingExpression (location numeratorCursor) = Inr (Some (MathExpression [])) \<and>
   getNodes (MathExpression []) = [] \<and> \<not> focused numeratorCursor \<and>
   cursorAddress numeratorCursor = [(0, 0)] \<and>
   renderAsLaTeX numeratorCursor [(0, 0)] (MathExpression []) = Inr ''~''"
proof -
  have 1: "getEnclosingExpression (location numeratorCursor) = Inr (Some (MathExpression []))"
    by code_simp
  have 2: "getNodes (MathExpression []) = []" by simp
  have 3: "\<not> focused numeratorCursor" by code_simp
  have 4: "cursorAddress numeratorCursor = [(0, 0)]" by code_simp
  from unfocused_empty_placeholder[OF 1 2 3]
  have "renderAsLaTeX numeratorCursor (cursorAddress numeratorCursor) (MathExpression []) = Inr placeholder"
    by (rule conjunct2[THEN conjunct2])
  then have 5: "renderAsLaTeX numeratorCursor [(0, 0)] (MathExpression []) = Inr ''~''"
    unfolding 4 placeholder_def .
  show ?thesis by (intro conjI 1 2 3 4 5)
qed

subsection \<open>Notifying the observers\<close>

text \<open>
  Claim C5 says that every mutating or navigating operation concludes by invoking every
  registered \<^verbatim>\<open>onUpdate\<close> callback, also when it is a no-op. \<^verbatim>\<open>moveDown\<close> and \<^verbatim>\<open>moveUp\<close>
  notify only through the \<^verbatim>\<open>leaveNode\<close> and \<^verbatim>\<open>enterNode\<close> they call: at the root, and at the
  last (first) child of a node, they return without invoking any callback.
\<close>

theorem operations_notify_counterexample:
  "reachable (observed (newCursor sampleRoot)) \<and>
   onUpdateCallbacks (observed (newCursor sampleRoot)) = [7] \<and>
   moveDown (observed (newCursor sampleRoot)) = (Inr (), observed (newCursor sampleRoot)) \<and>
   invoked (snd (moveDown (observed (newCursor sampleRoot)))) = [] \<and>
   moveUp (observed (newCursor sampleRoot)) = (Inr (), observed (newCursor sampleRoot)) \<and>
   invoked (snd (moveUp (observed (newCursor sampleRoot)))) = [] \<and>
   reachable (observed inDenominator) \<and>
   onUpdateCallbacks (observed inDenominator) = [7] \<and>
   moveDown (observed inDenominator) = (Inr (), observed inDenominator) \<and>
   invoked (snd (moveDown (observed inDenominator))) = []"
proof -
  have r1: "reachable (observed (newCursor sampleRoot))"
    unfolding observed_def by (intro reachable.onUpdate reachable.initial)
  have r2: "reachable (observed inDenominator)"
    unfolding observed_def by (intro reachable.onUpdate reachable_inDenominator)
  have 1: "onUpdateCallbacks (observed (newCursor sampleRoot)) = [7]" by code_simp
  have 2: "moveDown (observed (newCursor sampleRoot)) = (Inr (), observed (newCursor sampleRoot))"
    by code_simp
  have 3: "invoked (snd (moveDown (observed (newCursor sampleRoot)))) = []" by code_simp
  have 4: "moveUp (observed (newCursor sampleRoot)) = (Inr (), observed (newCursor sampleRoot))"
    by code_simp
  have 5: "invoked (snd (moveUp (observed (newCursor sampleRoot)))) = []" by code_simp
  have 6: "onUpdateCallbacks (observed inDenominator) = [7]" by code_simp
  have 7: "moveDown (observed inDenominator) = (Inr (), observed inDenominator)" by code_simp
  have 8: "invoked (snd (moveDown (observed inDenominator))) = []" by code_simp
  show ?thesis using r1 r2 1 2 3 4 5 6 7 8 by blast
qed

text \<open>
  Claim C5, amended. Each of \<^verbatim>\<open>enterNode\<close>, \<^verbatim>\<open>leaveNode\<close>, \<^verbatim>\<open>insertCharacterAtCursor\<close>,
  \<^verbatim>\<open>insertNodeAtCursor\<close>, \<^verbatim>\<open>deleteCharacterAtCursor\<close> and \<^verbatim>\<open>removeEnclosingNode\<close>, when it
  returns without throwing, has invoked every registered callback exactly once, in
  registration order, and as its final step: each callback found the cursor exactly as the
  operation leaves it. \<^verbatim>\<open>moveRight\<close> and \<^verbatim>\<open>moveLeft\<close> have invoked them once when the
  path is as it was (the cursor moved within its expression, or the move was a no-op at an
  end of the root) and twice when the cursor entered or left a node, every time on the
  cursor as the move leaves it, so the last round is their final step. \<^verbatim>\<open>moveDown\<close> and
  \<^verbatim>\<open>moveUp\<close> have invoked them twice when they move the cursor, first on the cursor as
  \<^verbatim>\<open>leaveNode\<close> leaves it and last, as their final step, on the cursor as the move leaves
  it; when they do not move the cursor they leave the whole state as it was, invoking
  nothing.
\<close>

theorem operations_notify:
  "(fst (enterNode ni ci dir c) = Inr () \<longrightarrow>
      notifiedSeeing [observe (snd (enterNode ni ci dir c))] c (snd (enterNode ni ci dir c))) \<and>
   (\<forall>link. fst (leaveNode dir c) = Inr link \<longrightarrow>
      notifiedSeeing [observe (snd (leaveNode dir c))] c (snd (leaveNode dir c))) \<and>
   (fst (insertCharacterAtCursor character fresh c) = Inr () \<longrightarrow>
      notifiedSeeing [observe (snd (insertCharacterAtCursor character fresh c))] c
        (snd (insertCharacterAtCursor character fresh c))) \<and>
   (\<forall>index. fst (insertNodeAtCursor node c) = Inr index \<longrightarrow>
      notifiedSeeing [observe (snd (insertNodeAtCursor node c))] c
        (snd (insertNodeAtCursor node c))) \<and>
   (fst (deleteCharacterAtCursor c) = Inr () \<longrightarrow>
      notifiedSeeing [observe (snd (deleteCharacterAtCursor c))] c
        (snd (deleteCharacterAtCursor c))) \<and>
   (fst (removeEnclosingNode c) = Inr () \<longrightarrow>
      notifiedSeeing [observe (snd (removeEnclosingNode c))] c (snd (removeEnclosingNode c))) \<and>
   (fst (moveRight c) = Inr () \<longrightarrow>
      (if path (snd (moveRight c)) = path c
       then notifiedSeeing [observe (snd (moveRight c))] c (snd (moveRight c))
       else notifiedSeeing [observe (snd (moveRight c)), observe (snd (moveRight c))] c
              (snd (moveRight c)))) \<and>
   (fst (moveLeft c) = Inr () \<longrightarrow>
      (if path (snd (moveLeft c)) = path c
       then notifiedSeeing [observe (snd (moveLeft c))] c (snd (moveLeft c))
       else notifiedSeeing [observe (snd (moveLeft c)), observe (snd (moveLeft c))] c
              (snd (moveLeft c)))) \<and>
   (fst (moveDown c) = Inr () \<longrightarrow>
      (if path (snd (moveDown c)) = path c then snd (moveDown c) = c
       else notifiedSeeing [observe (snd (leaveNode Left c)), observe (snd (moveDown c))] c
              (snd (moveDown c)))) \<and>
   (fst (moveUp c) = Inr () \<longrightarrow>
      (if path (snd (moveUp c)) = path c then snd (moveUp c) = c
       else notifiedSeeing [observe (snd (leaveNode Left c)), observe (snd (moveUp c))] c
              (snd (moveUp c))))"
  using enterNode_notifies[of ni ci dir c] leaveNode_notifies[of dir c]
    insertCharacterAtCursor_notifies[of character fresh c] insertNodeAtCursor_notifies[of node c]
    deleteCharacterAtCursor_notifies[of c] removeEnclosingNode_notifies[of c]
    moveRight_notifies[of c] moveLeft_notifies[of c] moveDown_notifies[of c] moveUp_notifies[of c]
  by blast

text \<open>
  With one callback registered: each operation on the sample document returns and has
  called it on the state it returns; \<^verbatim>\<open>moveRight\<close> leaves the denominator and calls it
  twice, \<^verbatim>\<open>moveLeft\<close> stays in it and calls it once, \<^verbatim>\<open>moveDown\<close> from the denominator
  changes nothing, \<^verbatim>\<open>moveUp\<close> calls it twice, the second time on the state it returns.
\<close>

theorem operations_notify_witness:
  "fst (enterNode 0 1 Left (observed (newCursor sampleRoot))) = Inr () \<and>
   invoked (snd (enterNode 0 1 Left (observed (newCursor sampleRoot)))) = [(7, observe (snd (enterNode 0 1 Left (observed (newCursor sampleRoot)))))] \<and>
   fst (insertCharacterAtCursor ''x'' ''n1'' (observed inDenominator)) = Inr () \<and>
   invoked (snd (insertCharacterAtCursor ''x'' ''n1'' (observed inDenominator))) = [(7, observe (snd (insertCharacterAtCursor ''x'' ''n1'' (observed inDenominator))))] \<and>
   fst (insertNodeAtCursor (newNode ''n2'' Fraction) (observed inDenominator)) = Inr 2 \<and>
   invoked (snd (insertNodeAtCursor (newNode ''n2'' Fraction) (observed inDenominator))) = [(7, observe (snd (insertNodeAtCursor (newNode ''n2'' Fraction) (observed inDenominator))))] \<and>
   fst (leaveNode Left (observed inDenominator)) = Inr \<lparr>nodeIndex = 0, childIndex = 1, link_i = 0\<rparr> \<and>
   invoked (snd (leaveNode Left (observed inDenominator))) = [(7, observe (snd (leaveNode Left (observed inDenominator))))] \<and>
   fst (deleteCharacterAtCursor (observed inDenominator)) = Inr () \<and>
   invoked (snd (deleteCharacterAtCursor (observed inDenominator))) = [(7, observe (snd (deleteCharacterAtCursor (observed inDenominator))))] \<and>
   fst (removeEnclosingNode (observed inDenominator)) = Inr () \<and>
   invoked (snd (removeEnclosingNode (observed inDenominator))) = [(7, observe (snd (removeEnclosingNode (observed inDenominator))))] \<and>
   fst (moveRight (observed inDenominator)) = Inr () \<and>
   path (snd (moveRight (observed inDenominator))) \<noteq> path (observed inDenominator) \<and>
   invoked (snd (moveRight (observed inDenominator))) =
     [(7, observe (snd (moveRight (observed inDenominator)))), (7, observe (snd (moveRight (observed inDenominator))))] \<and>
   fst (moveLeft (observed inDenominator)) = Inr () \<and>
   path (snd (moveLeft (observed inDenominator))) = path (observed inDenominator) \<and>
   invoked (snd (moveLeft (observed inDenominator))) = [(7, observe (snd (moveLeft (observed inDenominator))))] \<and>
   fst (moveDown (observed inDenominator)) = Inr () \<and>
   path (snd (moveDown (observed inDenominator))) = path (observed inDenominator) \<and>
   snd (moveDown (observed inDenominator)) = observed inDenominator \<and>
   fst (moveUp (observed inDenominator)) = Inr () \<and>
   path (snd (moveUp (observed inDenominator))) \<noteq> path (observed inDenominator) \<and>
   invoked (snd (moveUp (observed inDenominator))) =
     [(7, observe (snd (leaveNode Left (observed inDenominator)))),
      (7, observe (snd (moveUp (observed inDenominator))))] \<and>
   observe (snd (leaveNode Left (observed inDenominator))) \<noteq>
     observe (snd (moveUp (observed inDenominator)))"
proof -
  let ?r = "observed (newCursor sampleRoot)" and ?d = "observed inDenominator"
  have r0: "invoked ?r = []" "onUpdateCallbacks ?r = [7]" by code_simp+
  have d0: "invoked ?d = []" "onUpdateCallbacks ?d = [7]" by code_simp+
  note tr = operations_notify[where ni = 0 and ci = 1 and dir = Left and c = ?r
      and character = "''x''" and fresh = "''n1''" and node = "newNode ''n2'' Fraction"]
  note td = operations_notify[where ni = 0 and ci = 1 and dir = Left and c = ?d
      and character = "''x''" and fresh = "''n1''" and node = "newNode ''n2'' Fraction"]
  have e1: "fst (enterNode 0 1 Left ?r) = Inr ()" by code_simp
  have "notifiedSeeing [observe (snd (enterNode 0 1 Left ?r))] ?r (snd (enterNode 0 1 Left ?r))"
    using tr[THEN conjunct1] e1 by (rule mp)
  then have e2: "invoked (snd (enterNode 0 1 Left ?r)) = [(7, observe (snd (enterNode 0 1 Left ?r)))]"
    using r0 by (simp add: notifiedSeeing_def calls_def)
  have c1: "fst (insertCharacterAtCursor ''x'' ''n1'' ?d) = Inr ()" by code_simp
  have "notifiedSeeing [observe (snd (insertCharacterAtCursor ''x'' ''n1'' ?d))] ?d (snd (insertCharacterAtCursor ''x'' ''n1'' ?d))"
    using td[THEN conjunct2, THEN conjunct2, THEN conjunct1] c1 by (rule mp)
  then have c2: "invoked (snd (insertCharacterAtCursor ''x'' ''n1'' ?d)) = [(7, observe (snd (insertCharacterAtCursor ''x'' ''n1'' ?d)))]"
    using d0 by (simp add: notifiedSeeing_def calls_def)
  have n1: "fst (insertNodeAtCursor (newNode ''n2'' Fraction) ?d) = Inr 2" by code_simp
  have "notifiedSeeing [observe (snd (insertNodeAtCursor (newNode ''n2'' Fraction) ?d))] ?d (snd (insertNodeAtCursor (newNode ''n2'' Fraction) ?d))"
    using td[THEN conjunct2, THEN conjunct2, THEN conjunct2, THEN conjunct1] n1 by blast
  then have n2: "invoked (snd (insertNodeAtCursor (newNode ''n2'' Fraction) ?d)) = [(7, observe (snd (insertNodeAtCursor (newNode ''n2'' Fraction) ?d)))]"
    using d0 by (simp add: notifiedSeeing_def calls_def)
  have l1: "fst (leaveNode Left ?d) = Inr \<lparr>nodeIndex = 0, childIndex = 1, link_i = 0\<rparr>" by code_simp
  have "notifiedSeeing [observe (snd (leaveNode Left ?d))] ?d (snd (leaveNode Left ?d))"
    using td[THEN conjunct2, THEN conjunct1] l1 by blast
  then have l2: "invoked (snd (leaveNode Left ?d)) = [(7, observe (snd (leaveNode Left ?d)))]"
    using d0 by (simp add: notifiedSeeing_def calls_def)
  have x1: "fst (deleteCharacterAtCursor ?d) = Inr ()" by code_simp
  have "notifiedSeeing [observe (snd (deleteCharacterAtCursor ?d))] ?d (snd (deleteCharacterAtCursor ?d))"
    using td[THEN conjunct2, THEN conjunct2, THEN conjunct2, THEN conjunct2, THEN conjunct1] x1 by (rule mp)
  then have x2: "invoked (snd (deleteCharacterAtCursor ?d)) = [(7, observe (snd (deleteCharacterAtCursor ?d)))]"
    using d0 by (simp add: notifiedSeeing_def calls_def)
  have y1: "fst (removeEnclosingNode ?d) = Inr ()" by code_simp
  have "notifiedSeeing [observe (snd (removeEnclosingNode ?d))] ?d (snd (removeEnclosingNode ?d))"
    using td[THEN conjunct2, THEN conjunct2, THEN conjunct2, THEN conjunct2, THEN conjunct2, THEN conjunct1] y1 by (rule mp)
  then have y2: "invoked (snd (removeEnclosingNode ?d)) = [(7, observe (snd (removeEnclosingNode ?d)))]"
    using d0 by (simp add: notifiedSeeing_def calls_def)
  have mr1: "fst (moveRight ?d) = Inr ()" by code_simp
  have mrp: "path (snd (moveRight ?d)) \<noteq> path ?d" by code_simp
  have "if path (snd (moveRight ?d)) = path ?d
        then notifiedSeeing [observe (snd (moveRight ?d))] ?d (snd (moveRight ?d))
        else notifiedSeeing [observe (snd (moveRight ?d)), observe (snd (moveRight ?d))] ?d (snd (moveRight ?d))"
    using td[THEN conjunct2, THEN conjunct2, THEN conjunct2, THEN conjunct2, THEN conjunct2, THEN conjunct2, THEN conjunct1] mr1 by (rule mp)
  then have "notifiedSeeing [observe (snd (moveRight ?d)), observe (snd (moveRight ?d))] ?d (snd (moveRight ?d))"
    using mrp by (simp only: if_False)
  then have mr2: "invoked (snd (moveRight ?d)) = [(7, observe (snd (moveRight ?d))), (7, observe (snd (moveRight ?d)))]"
    using d0 by (simp add: notifiedSeeing_def calls_def)
  have ml1: "fst (moveLeft ?d) = Inr ()" by code_simp
  have mlp: "path (snd (moveLeft ?d)) = path ?d" by code_simp
  have "if path (snd (moveLeft ?d)) = path ?d
        then notifiedSeeing [observe (snd (moveLeft ?d))] ?d (snd (moveLeft ?d))
        else notifiedSeeing [observe (snd (moveLeft ?d)), observe (snd (moveLeft ?d))] ?d (snd (moveLeft ?d))"
    using td[THEN conjunct2, THEN conjunct2, THEN conjunct2, THEN conjunct2, THEN conjunct2, THEN conjunct2, THEN conjunct2, THEN conjunct1] ml1 by (rule mp)
  then have "notifiedSeeing [observe (snd (moveLeft ?d))] ?d (snd (moveLeft ?d))"
    using mlp by (simp only: if_True)
  then have ml2: "invoked (snd (moveLeft ?d)) = [(7, observe (snd (moveLeft ?d)))]"
    using d0 by (simp add: notifiedSeeing_def calls_def)
  have md1: "fst (moveDown ?d) = Inr ()" by code_simp
  have md2: "path (snd (moveDown ?d)) = path ?d" by code_simp
  have "if path (snd (moveDown ?d)) = path ?d then snd (moveDown ?d) = ?d
        else notifiedSeeing [observe (snd (leaveNode Left ?d)), observe (snd (moveDown ?d))] ?d
               (snd (moveDown ?d))"
    using td[THEN conjunct2, THEN conjunct2, THEN conjunct2, THEN conjunct2, THEN conjunct2, THEN conjunct2, THEN conjunct2, THEN conjunct2, THEN conjunct1] md1 by (rule mp)
  then have md3: "snd (moveDown ?d) = ?d" using md2 by (simp only: if_True)
  have mu1: "fst (moveUp ?d) = Inr ()" by code_simp
  have mu2: "path (snd (moveUp ?d)) \<noteq> path ?d" by code_simp
  have "if path (snd (moveUp ?d)) = path ?d then snd (moveUp ?d) = ?d
        else notifiedSeeing [observe (snd (leaveNode Left ?d)), observe (snd (moveUp ?d))] ?d
               (snd (moveUp ?d))"
    using td[THEN conjunct2, THEN conjunct2, THEN conjunct2, THEN conjunct2, THEN conjunct2, THEN conjunct2, THEN conjunct2, THEN conjunct2, THEN conjunct2] mu1 by (rule mp)
  then have "notifiedSeeing [observe (snd (leaveNode Left ?d)), observe (snd (moveUp ?d))] ?d
      (snd (moveUp ?d))"
    using mu2 by (simp only: if_False)
  then have mu3: "invoked (snd (moveUp ?d)) =
      [(7, observe (snd (leaveNode Left ?d))), (7, observe (snd (moveUp ?d)))]"
    using d0 by (simp add: notifiedSeeing_def calls_def)
  have mu4: "observe (snd (leaveNode Left ?d)) \<noteq> observe (snd (moveUp ?d))" by code_simp
  show ?thesis
    by (intro conjI e1 e2 c1 c2 n1 n2 l1 l2 x1 x2 y1 y2 mr1 mrp mr2 ml1 mlp ml2 md1 md2 md3 mu1 mu2 mu3 mu4)
qed

subsection \<open>Deleting\<close>





subsection \<open>Inserting into an expression\<close>

text \<open>
  Claim C8. \<^verbatim>\<open>insertNode\<close> has no failing case. For every index \<open>before \<ge> 0\<close> the node is
  put at that index, or at the end when the index is beyond the end; the expression grows
  by exactly one node, the nodes before the index stay where they are and the nodes from
  the index on move one place to the right.
\<close>

theorem insertNode_total:
  assumes "0 \<le> before"
  shows "getNodes (insertNode before node e) =
           take (nat before) (getNodes e) @ [node] @ drop (nat before) (getNodes e) \<and>
         length (getNodes (insertNode before node e)) = length (getNodes e) + 1 \<and>
         (int (length (getNodes e)) < before \<longrightarrow>
            getNodes (insertNode before node e) = getNodes e @ [node]) \<and>
         (\<forall>j. j < length (getNodes e) \<longrightarrow>
            (j < nat before \<longrightarrow> getNodes (insertNode before node e) ! j = getNodes e ! j) \<and>
            (nat before \<le> j \<longrightarrow> getNodes (insertNode before node e) ! Suc j = getNodes e ! j))"
proof -
  have eq: "getNodes (insertNode before node e) =
           take (nat before) (getNodes e) @ [node] @ drop (nat before) (getNodes e)"
    using assms by (simp add: insertNode_def splice_insert)
  have app: "getNodes (insertNode before node e) = getNodes e @ [node]"
    if "int (length (getNodes e)) < before"
    using that by (simp add: eq)
  have shift: "(j < nat before \<longrightarrow> getNodes (insertNode before node e) ! j = getNodes e ! j) \<and>
            (nat before \<le> j \<longrightarrow> getNodes (insertNode before node e) ! Suc j = getNodes e ! j)"
    if "j < length (getNodes e)" for j
  proof (intro conjI impI)
    assume "j < nat before"
    then show "getNodes (insertNode before node e) ! j = getNodes e ! j"
      using that by (simp add: eq nth_append)
  next
    assume le: "nat before \<le> j"
    then have l: "length (take (nat before) (getNodes e)) = nat before" using that by simp
    have "(take (nat before) (getNodes e) @ node # drop (nat before) (getNodes e)) ! Suc j
        = (node # drop (nat before) (getNodes e)) ! (Suc j - nat before)"
      using le that by (simp add: nth_append min_def)
    also have "\<dots> = drop (nat before) (getNodes e) ! (j - nat before)"
      using le by (simp add: Suc_diff_le)
    also have "\<dots> = getNodes e ! j" using le that by simp
    finally show "getNodes (insertNode before node e) ! Suc j = getNodes e ! j" by (simp add: eq)
  qed
  show ?thesis using eq app shift by simp
qed

text \<open>
  Inserting at index 5 into an expression of one node appends; inserting at index 0 shifts
  that node to index 1.
\<close>

theorem insertNode_total_witness:
  "(0::int) \<le> 5 \<and>
   int (length (getNodes (MathExpression [newNode ''a'' (MathCharacter ''a'')]))) < 5 \<and>
   getNodes (insertNode 5 (newNode ''z'' (MathCharacter ''z''))
       (MathExpression [newNode ''a'' (MathCharacter ''a'')])) =
     [newNode ''a'' (MathCharacter ''a''), newNode ''z'' (MathCharacter ''z'')] \<and>
   (0::int) \<le> 0 \<and>
   getNodes (insertNode 0 (newNode ''z'' (MathCharacter ''z''))
       (MathExpression [newNode ''a'' (MathCharacter ''a'')])) ! Suc 0 =
     newNode ''a'' (MathCharacter ''a'')"
proof -
  have 1: "(0::int) \<le> 5" by simp
  have 2: "int (length (getNodes (MathExpression [newNode ''a'' (MathCharacter ''a'')]))) < 5" by simp
  have 3: "getNodes (insertNode 5 (newNode ''z'' (MathCharacter ''z''))
       (MathExpression [newNode ''a'' (MathCharacter ''a'')])) =
     [newNode ''a'' (MathCharacter ''a''), newNode ''z'' (MathCharacter ''z'')]"
    using insertNode_total[OF 1, of "newNode ''z'' (MathCharacter ''z'')"
        "MathExpression [newNode ''a'' (MathCharacter ''a'')]"] 2
    by simp
  have 4: "(0::int) \<le> 0" by simp
  have 5: "getNodes (insertNode 0 (newNode ''z'' (MathCharacter ''z''))
       (MathExpression [newNode ''a'' (MathCharacter ''a'')])) ! Suc 0 =
     newNode ''a'' (MathCharacter ''a'')"
    using insertNode_total[OF 4, of "newNode ''z'' (MathCharacter ''z'')"
        "MathExpression [newNode ''a'' (MathCharacter ''a'')]"]
    by simp
  show ?thesis using 1 2 3 4 5 by blast
qed

subsection \<open>Backspace at the root\<close>

text \<open>
  Claim C10. On \<^verbatim>\<open>Backspace\<close> the dispatcher looks only at the position: 0 means
  \<^verbatim>\<open>removeEnclosingNode\<close>, anything else \<^verbatim>\<open>deleteCharacterAtCursor\<close>. At the root with
  position 0 the call therefore throws the no-enclosing-node error, and the tree, the path
  and the position are what they were.
\<close>

theorem backspace_at_root:
  "handleKeydown ''Backspace'' env c =
     (if cursorIndex c = 0
      then removeEnclosingNode (notifyUpdates (c\<lparr>lastBlinkInterrupt := now env, blinkState := True\<rparr>))
      else deleteCharacterAtCursor (notifyUpdates (c\<lparr>lastBlinkInterrupt := now env, blinkState := True\<rparr>))) \<and>
   (path c = [] \<and> cursorIndex c = 0 \<longrightarrow>
      fst (handleKeydown ''Backspace'' env c) = Inl NoEnclosingNode \<and>
      root (snd (handleKeydown ''Backspace'' env c)) = root c \<and>
      path (snd (handleKeydown ''Backspace'' env c)) = path c \<and>
      cursorIndex (snd (handleKeydown ''Backspace'' env c)) = cursorIndex c)"
proof (intro conjI impI)
  show "handleKeydown ''Backspace'' env c =
     (if cursorIndex c = 0
      then removeEnclosingNode (notifyUpdates (c\<lparr>lastBlinkInterrupt := now env, blinkState := True\<rparr>))
      else deleteCharacterAtCursor (notifyUpdates (c\<lparr>lastBlinkInterrupt := now env, blinkState := True\<rparr>)))"
    by (rule backspace_dispatch)
next
  let ?c0 = "notifyUpdates (c\<lparr>lastBlinkInterrupt := now env, blinkState := True\<rparr>)"
  assume a: "path c = [] \<and> cursorIndex c = 0"
  then have p0: "path ?c0 = []" by (simp add: path_def)
  have h: "handleKeydown ''Backspace'' env c = (Inl NoEnclosingNode, ?c0)"
    unfolding backspace_dispatch using a removeEnclosingNode_root[OF p0] by simp
  show "fst (handleKeydown ''Backspace'' env c) = Inl NoEnclosingNode" by (simp add: h)
  show "root (snd (handleKeydown ''Backspace'' env c)) = root c" by (simp add: h root_def)
  show "path (snd (handleKeydown ''Backspace'' env c)) = path c" by (simp add: h path_def)
  show "cursorIndex (snd (handleKeydown ''Backspace'' env c)) = cursorIndex c" by (simp add: h)
qed

text \<open>
  A new cursor on the sample document is at the root with position 0.
\<close>

theorem backspace_at_root_witness:
  "path (newCursor sampleRoot) = [] \<and> cursorIndex (newCursor sampleRoot) = 0 \<and>
   fst (handleKeydown ''Backspace'' \<lparr>now = 1000, freshId = ''n1'', cursorShown = True\<rparr>
          (newCursor sampleRoot)) = Inl NoEnclosingNode \<and>
   root (snd (handleKeydown ''Backspace'' \<lparr>now = 1000, freshId = ''n1'', cursorShown = True\<rparr>
          (newCursor sampleRoot))) = sampleRoot"
proof -
  have 1: "path (newCursor sampleRoot) = []" by code_simp
  have 2: "cursorIndex (newCursor sampleRoot) = 0" by code_simp
  have 3: "root (newCursor sampleRoot) = sampleRoot" by code_simp
  from backspace_at_root[of "\<lparr>now = 1000, freshId = ''n1'', cursorShown = True\<rparr>" "newCursor sampleRoot"] 1 2
  have t: "fst (handleKeydown ''Backspace'' \<lparr>now = 1000, freshId = ''n1'', cursorShown = True\<rparr>
          (newCursor sampleRoot)) = Inl NoEnclosingNode \<and>
      root (snd (handleKeydown ''Backspace'' \<lparr>now = 1000, freshId = ''n1'', cursorShown = True\<rparr>
          (newCursor sampleRoot))) = root (newCursor sampleRoot)"
    by blast
  show ?thesis using 1 2 3 t by simp
qed

end
